theory Spec2Isabelle
  imports
    Main
    "HOL-Library.Product_Lexorder"
    "HOL-Library.Char_ord"
    "HOL-Library.List_Lexorder"
    "HOL-Library.Sublist"
    "HOL-Library.Multiset"
begin

section \<open>The accessibility-label patch script\<close>

text \<open>
  The script \<^verbatim>\<open>add_labels.py\<close> patches three Swift source files. Two of them are
  rewritten with \<^verbatim>\<open>re.sub\<close> (pattern rules), the third by inserting literal
  lines at fixed line numbers (positional rules). This theory embeds both operations and
  the script around them.

  Text is a \<^typ>\<open>string\<close>: a list of characters, each standing for one code point
  of the decoded file (code points below 256). A file system maps a path to the text
  that \<^verbatim>\<open>f.read()\<close> returns for it.
\<close>

section \<open>Positional rules\<close>

subsection \<open>The list operations the loop uses\<close>

text \<open>
  \<^verbatim>\<open>list.insert(i, x)\<close> puts \<open>x\<close> in front of the element at index \<open>i\<close>.
  A negative index counts from the end; an index outside the list is clamped to the
  nearer end. It never raises.
\<close>

definition list_insert :: "int \<Rightarrow> 'a \<Rightarrow> 'a list \<Rightarrow> 'a list" where
  "list_insert i x xs =
     (let n = int (length xs);
          j = (if i < 0 then (if i + n < 0 then 0 else i + n) else (if n < i then n else i))
      in take (nat j) xs @ x # drop (nat j) xs)"

text \<open>
  \<^verbatim>\<open>sorted(inserts, reverse=True)\<close> orders the pairs from the largest to the
  smallest. Pairs compare by line number first and by text (code point by code point)
  second, so two pairs that compare equal are the same pair and the stability of the sort
  cannot be observed.
\<close>

definition sorted_reverse :: "'a::linorder list \<Rightarrow> 'a list" where
  "sorted_reverse xs = rev (sort xs)"

subsection \<open>The loop\<close>

text \<open>
  \<^verbatim>\<open>
  for line_no, text in sorted(inserts, reverse=True):
      if line_no < len(lines):
          lines.insert(line_no, text)
  \<close>
  The list \<open>lines\<close> is mutated in place; the model passes it along.
\<close>

fun insert_loop :: "(int \<times> string) list \<Rightarrow> string list \<Rightarrow> string list" where
  "insert_loop [] lines = lines"
| "insert_loop ((line_no, text) # rest) lines =
     insert_loop rest
       (if line_no < int (length lines) then list_insert line_no text lines else lines)"

definition apply_inserts :: "string list \<Rightarrow> (int \<times> string) list \<Rightarrow> string list" where
  "apply_inserts lines inserts = insert_loop (sorted_reverse inserts) lines"

text \<open>
  The same loop with a ghost variable: the inserts whose guard held when the loop reached
  them, in the order in which they were applied.
\<close>

fun applied :: "(int \<times> string) list \<Rightarrow> string list \<Rightarrow> (int \<times> string) list" where
  "applied [] lines = []"
| "applied ((line_no, text) # rest) lines =
     (if line_no < int (length lines)
      then (line_no, text) # applied rest (list_insert line_no text lines)
      else applied rest lines)"

text \<open>An insert is in range of a file of \<open>n\<close> lines when its index is below \<open>n\<close>.\<close>

definition in_range :: "nat \<Rightarrow> int \<times> string \<Rightarrow> bool" where
  "in_range n ins = (fst ins < int n)"



subsection \<open>Facts about the loop\<close>

lemma in_range_pair [simp]: "in_range n (i, t) = (i < int n)"
  by (simp add: in_range_def)

lemma length_list_insert: "length (list_insert i x xs) = Suc (length xs)"
  by (simp add: list_insert_def Let_def)


lemma sorted_reverse_fst:
  "sorted_wrt (\<lambda>a b. fst b \<le> fst a) (sorted_reverse (xs :: (int \<times> string) list))"
proof -
  have "sorted_wrt (\<lambda>a b. b \<le> a) (rev (sort xs))"
    by (simp add: sorted_wrt_rev)
  then show ?thesis
    unfolding sorted_reverse_def
    by (rule sorted_wrt_mono_rel [rotated]) (auto simp: less_eq_prod_def)
qed

text \<open>
  The invariant of the descending pass: the sequence has at least its original \<open>n\<close>
  lines, and once it has grown every insert still to come has an index below \<open>n\<close>.
\<close>

lemma applied_filter:
  "sorted_wrt (\<lambda>a b. fst b \<le> fst a) ins \<Longrightarrow> n \<le> length lines \<Longrightarrow>
   (n < length lines \<longrightarrow> (\<forall>x \<in> set ins. fst x < int n)) \<Longrightarrow>
   applied ins lines = filter (in_range n) ins"
proof (induction ins arbitrary: lines)
  case Nil
  then show ?case by simp
next
  case (Cons a ins)
  obtain i t where a: "a = (i, t)" by (cases a)
  show ?case
  proof (cases "i < int (length lines)")
    case True
    with Cons.prems a have lt: "i < int n" by (cases "n < length lines") auto
    have "applied ins (list_insert i t lines) = filter (in_range n) ins"
      using Cons.prems a lt by (intro Cons.IH) (auto simp: length_list_insert)
    with True lt a show ?thesis by simp
  next
    case False
    with Cons.prems a have ge: "\<not> i < int n" by auto
    with Cons.prems a have eq: "\<not> n < length lines" by auto
    have "applied ins lines = filter (in_range n) ins"
      using Cons.prems eq by (intro Cons.IH) auto
    with False ge a show ?thesis by simp
  qed
qed

lemma applied_sorted_reverse:
  "applied (sorted_reverse inserts) lines
   = filter (in_range (length lines)) (sorted_reverse inserts)"
  by (rule applied_filter [OF sorted_reverse_fst]) simp_all

lemma insert_loop_applied:
  "insert_loop ins lines = fold (\<lambda>(i, t). list_insert i t) (applied ins lines) lines"
  by (induction ins lines rule: insert_loop.induct) simp_all











lemma apply_inserts_in_range:
  "apply_inserts lines inserts = apply_inserts lines (filter (in_range (length lines)) inserts)"
proof -
  let ?P = "in_range (length lines)"
  have f: "sorted_reverse (filter ?P inserts) = filter ?P (sorted_reverse inserts)"
    unfolding sorted_reverse_def by (simp only: rev_filter [symmetric] filter_sort)
  have "applied (sorted_reverse (filter ?P inserts)) lines
        = filter ?P (sorted_reverse (filter ?P inserts))"
    by (rule applied_sorted_reverse)
  also have "\<dots> = filter ?P (sorted_reverse inserts)"
    by (simp add: f)
  finally show ?thesis
    by (simp add: apply_inserts_def insert_loop_applied applied_sorted_reverse)
qed


section \<open>Pattern rules\<close>

subsection \<open>Patterns\<close>

text \<open>
  The patterns of the script are written in a small part of Python's regular-expression
  syntax: literal characters (a dot, a parenthesis, a brace or a quote escaped with a
  backslash), the whitespace class under the greedy repetitions \<^verbatim>\<open>+\<close> and
  \<^verbatim>\<open>*\<close>, concatenation, and capturing groups. A compiled pattern is a value of
  \<open>regex\<close>.

  The whitespace class of a \<^verbatim>\<open>str\<close> pattern accepts the Unicode whitespace
  characters; below code point 256 these are the twelve listed here.
\<close>

definition is_space :: "char \<Rightarrow> bool" where
  "is_space c = (of_char c \<in> {9, 10, 11, 12, 13, 28, 29, 30, 31, 32, 133, 160 :: nat})"

datatype cclass = Chr char | Space

fun in_class :: "cclass \<Rightarrow> char \<Rightarrow> bool" where
  "in_class (Chr c) x = (x = c)"
| "in_class Space x = is_space x"

datatype regex = Eps | Atom cclass | Seq regex regex | Star cclass | Plus cclass | Group regex

fun ngroups :: "regex \<Rightarrow> nat" where
  "ngroups (Seq r1 r2) = ngroups r1 + ngroups r2"
| "ngroups (Group r) = Suc (ngroups r)"
| "ngroups _ = 0"

text \<open>
  \<open>lit w\<close> is the pattern that matches the text \<open>w\<close> literally and \<open>seqs\<close>
  concatenates patterns: a group holding the text \<^verbatim>\<open>Text(sub)\<close>, one or more
  whitespace characters and the text \<^verbatim>\<open>.font\<close> reads
  \<open>Group (seqs [lit ''Text(sub)'', Plus Space, lit ''.font''])\<close>.
\<close>

fun lit :: "string \<Rightarrow> regex" where
  "lit [] = Eps"
| "lit (c # cs) = Seq (Atom (Chr c)) (lit cs)"

fun seqs :: "regex list \<Rightarrow> regex" where
  "seqs [] = Eps"
| "seqs (r # rs) = Seq r (seqs rs)"

subsection \<open>The backtracking matcher\<close>

text \<open>
  The groups captured so far are an association list from group number to captured text,
  newest first; group 0 is the whole match. Groups are numbered by their opening
  parenthesis from left to right, starting at 1.

  \<open>matches r g s caps\<close> lists every way in which \<open>r\<close> matches a prefix of \<open>s\<close>,
  as the text left over and the groups captured, in the order in which the backtracking
  engine tries them: a greedy repetition tries its longest run first. The head of the list
  is the match the engine returns; the tail is what it would backtrack to. \<open>g\<close> is the
  number of the next group to open.
\<close>

type_synonym groups = "(nat \<times> string) list"

fun matches :: "regex \<Rightarrow> nat \<Rightarrow> string \<Rightarrow> groups \<Rightarrow> (string \<times> groups) list" where
  "matches Eps g s caps = [(s, caps)]"
| "matches (Atom c) g s caps =
     (case s of [] \<Rightarrow> [] | x # xs \<Rightarrow> if in_class c x then [(xs, caps)] else [])"
| "matches (Seq r1 r2) g s caps =
     concat (map (\<lambda>(s', caps'). matches r2 (g + ngroups r1) s' caps') (matches r1 g s caps))"
| "matches (Star c) g s caps =
     map (\<lambda>j. (drop j s, caps)) (rev [0 ..< Suc (length (takeWhile (in_class c) s))])"
| "matches (Plus c) g s caps =
     map (\<lambda>j. (drop j s, caps)) (rev [1 ..< Suc (length (takeWhile (in_class c) s))])"
| "matches (Group r) g s caps =
     map (\<lambda>(s', caps'). (s', (g, take (length s - length s') s) # caps')) (matches r (Suc g) s caps)"

text \<open>
  One attempt of the engine at the start of \<open>s\<close>. With \<open>must_advance\<close> set the
  engine rejects a match that consumes nothing and backtracks to the next one.
\<close>

definition match_at :: "regex \<Rightarrow> bool \<Rightarrow> string \<Rightarrow> (string \<times> groups) option" where
  "match_at r must_advance s =
     (case filter (\<lambda>(s', caps). \<not> (must_advance \<and> length s' = length s)) (matches r 1 s []) of
        [] \<Rightarrow> None
      | (s', caps) # _ \<Rightarrow> Some (s', (0, take (length s - length s') s) # caps))"

text \<open>
  \<^verbatim>\<open>search\<close> tries each start position from left to right; \<open>must_advance\<close>
  only constrains the first. The result is the text skipped before the match, the text
  left after it, and the groups.
\<close>

fun search :: "regex \<Rightarrow> bool \<Rightarrow> string \<Rightarrow> (string \<times> string \<times> groups) option" where
  "search r must_advance s =
     (case match_at r must_advance s of
        Some (s', caps) \<Rightarrow> Some ([], s', caps)
      | None \<Rightarrow>
          (case s of
             [] \<Rightarrow> None
           | c # cs \<Rightarrow>
               (case search r False cs of
                  None \<Rightarrow> None
                | Some (pre, s', caps) \<Rightarrow> Some (c # pre, s', caps))))"

declare search.simps [simp del]

subsection \<open>What a match is\<close>

text \<open>
  The words a pattern matches, stated without reference to the matcher, and the
  predicate ``the pattern has a match somewhere in the text''.
\<close>

fun lang :: "regex \<Rightarrow> string set" where
  "lang Eps = {[]}"
| "lang (Atom c) = {[x] | x. in_class c x}"
| "lang (Seq r1 r2) = {u @ v | u v. u \<in> lang r1 \<and> v \<in> lang r2}"
| "lang (Star c) = {w. \<forall>x \<in> set w. in_class c x}"
| "lang (Plus c) = {w. w \<noteq> [] \<and> (\<forall>x \<in> set w. in_class c x)}"
| "lang (Group r) = lang r"

definition occurs :: "regex \<Rightarrow> string \<Rightarrow> bool" where
  "occurs r s = (\<exists>pre m post. s = pre @ m @ post \<and> m \<in> lang r)"

text \<open>The pattern has a match that begins at the start of the text.\<close>

definition starts :: "regex \<Rightarrow> string \<Rightarrow> bool" where
  "starts r s = (\<exists>w post. s = w @ post \<and> w \<in> lang r)"

text \<open>The pattern matches the empty text.\<close>

fun nullable :: "regex \<Rightarrow> bool" where
  "nullable Eps = True"
| "nullable (Atom c) = False"
| "nullable (Seq a b) = (nullable a \<and> nullable b)"
| "nullable (Star c) = True"
| "nullable (Plus c) = False"
| "nullable (Group r) = nullable r"

subsection \<open>The matcher finds exactly the matches\<close>

lemma nullable_lang: "nullable r \<longleftrightarrow> [] \<in> lang r"
  by (induction r) auto

lemma take_takeWhile_class:
  "j \<le> length (takeWhile P s) \<Longrightarrow> x \<in> set (take j s) \<Longrightarrow> P x"
proof -
  assume j: "j \<le> length (takeWhile P s)" and x: "x \<in> set (take j s)"
  have "take j s = take j (take (length (takeWhile P s)) s)"
    using j by (simp add: min_def)
  also have "\<dots> = take j (takeWhile P s)"
    by (simp add: takeWhile_eq_take [symmetric])
  finally have "x \<in> set (takeWhile P s)"
    using x by (auto dest: in_set_takeD)
  then show "P x" by (rule set_takeWhileD [THEN conjunct2])
qed

lemma matches_sound:
  "(s', c') \<in> set (matches r g s caps) \<Longrightarrow> \<exists>m \<in> lang r. s = m @ s'"
proof (induction r arbitrary: g s caps s' c')
  case Eps
  then show ?case by simp
next
  case (Atom c)
  then show ?case by (auto split: list.splits if_splits)
next
  case (Seq r1 r2)
  from Seq.prems obtain s1 c1 where
    1: "(s1, c1) \<in> set (matches r1 g s caps)" and
    2: "(s', c') \<in> set (matches r2 (g + ngroups r1) s1 c1)"
    by auto
  from Seq.IH(1) [OF 1] obtain u where u: "u \<in> lang r1" "s = u @ s1" by blast
  from Seq.IH(2) [OF 2] obtain v where v: "v \<in> lang r2" "s1 = v @ s'" by blast
  from u v have "u @ v \<in> lang (Seq r1 r2)" "s = (u @ v) @ s'" by auto
  then show ?case by blast
next
  case (Star c)
  then obtain j where j: "j \<le> length (takeWhile (in_class c) s)" "s' = drop j s"
    by (auto simp del: upt_Suc simp: less_Suc_eq_le)
  then have "take j s \<in> lang (Star c)" "s = take j s @ s'"
    by (auto dest: take_takeWhile_class)
  then show ?case by blast
next
  case (Plus c)
  then obtain j where j: "1 \<le> j" "j \<le> length (takeWhile (in_class c) s)" "s' = drop j s"
    by (auto simp del: upt_Suc simp: less_Suc_eq_le)
  then have "j \<le> length s"
    by (meson le_trans length_takeWhile_le)
  with j have "take j s \<noteq> []" by auto
  with j have "take j s \<in> lang (Plus c)" "s = take j s @ s'"
    by (auto dest: take_takeWhile_class)
  then show ?case by blast
next
  case (Group r)
  then show ?case by auto
qed

lemma matches_complete:
  "m \<in> lang r \<Longrightarrow> \<exists>c'. (s', c') \<in> set (matches r g (m @ s') caps)"
proof (induction r arbitrary: g m s' caps)
  case Eps
  then show ?case by simp
next
  case (Atom c)
  then show ?case by auto
next
  case (Seq r1 r2)
  from Seq.prems obtain u v where uv: "m = u @ v" "u \<in> lang r1" "v \<in> lang r2" by auto
  from Seq.IH(1) [OF uv(2)] obtain c1 where
    1: "(v @ s', c1) \<in> set (matches r1 g (u @ v @ s') caps)" by blast
  from Seq.IH(2) [OF uv(3)] obtain c2 where
    2: "(s', c2) \<in> set (matches r2 (g + ngroups r1) (v @ s') c1)" by blast
  from 1 2 uv show ?case by force
next
  case (Star c)
  then have "takeWhile (in_class c) (m @ s') = m @ takeWhile (in_class c) s'"
    by (simp add: takeWhile_append2)
  then have "length m \<in> set (rev [0 ..< Suc (length (takeWhile (in_class c) (m @ s')))])"
    by simp
  then have "(drop (length m) (m @ s'), caps) \<in> set (matches (Star c) g (m @ s') caps)"
    unfolding matches.simps set_map by (rule image_eqI [rotated]) simp
  then show ?case by auto
next
  case (Plus c)
  then have "takeWhile (in_class c) (m @ s') = m @ takeWhile (in_class c) s'"
    by (simp add: takeWhile_append2)
  moreover from Plus have "1 \<le> length m" by (cases m) auto
  ultimately have "length m \<in> set (rev [1 ..< Suc (length (takeWhile (in_class c) (m @ s')))])"
    by simp
  then have "(drop (length m) (m @ s'), caps) \<in> set (matches (Plus c) g (m @ s') caps)"
    unfolding matches.simps set_map by (rule image_eqI [rotated]) simp
  then show ?case by auto
next
  case (Group r)
  from Group.IH [OF Group.prems [simplified]] obtain c1 where
    "(s', c1) \<in> set (matches r (Suc g) (m @ s') caps)" by blast
  then show ?case by force
qed

lemma match_at_sound:
  assumes "match_at r adv s = Some (s', caps)"
  shows "\<exists>m \<in> lang r. s = m @ s' \<and> (adv \<longrightarrow> m \<noteq> []) \<and> map_of caps 0 = Some m"
proof -
  from assms obtain c1 rest where
    f: "filter (\<lambda>(s', caps). \<not> (adv \<and> length s' = length s)) (matches r 1 s []) = (s', c1) # rest"
    and caps: "caps = (0, take (length s - length s') s) # c1"
    by (auto simp: match_at_def split: list.splits)
  have "(s', c1) \<in> set (filter (\<lambda>(s', caps). \<not> (adv \<and> length s' = length s)) (matches r 1 s []))"
    unfolding f by simp
  then have mem: "(s', c1) \<in> set (matches r 1 s [])" and adv: "\<not> (adv \<and> length s' = length s)"
    by auto
  from matches_sound [OF mem] obtain m where m: "m \<in> lang r" "s = m @ s'" by blast
  with adv caps show ?thesis by auto
qed

lemma match_at_None:
  "match_at r adv s = None \<longleftrightarrow>
   (\<forall>(s', c) \<in> set (matches r 1 s []). adv \<and> length s' = length s)"
proof -
  let ?xs = "filter (\<lambda>(s', caps). \<not> (adv \<and> length s' = length s)) (matches r 1 s [])"
  have "match_at r adv s = None \<longleftrightarrow> ?xs = []"
    by (cases ?xs) (auto simp: match_at_def)
  then show ?thesis
    by (auto simp: filter_empty_conv)
qed

lemma search_sound:
  "search r adv s = Some (pre, s', caps) \<Longrightarrow>
   \<exists>m \<in> lang r. s = pre @ m @ s' \<and> (adv \<and> pre = [] \<longrightarrow> m \<noteq> []) \<and> map_of caps 0 = Some m"
proof (induction r adv s arbitrary: pre s' caps rule: search.induct)
  case (1 r adv s)
  show ?case
  proof (cases "match_at r adv s")
    case (Some a)
    with "1.prems" have "pre = []" "a = (s', caps)"
      by (auto simp: search.simps [of r adv s])
    with Some match_at_sound [of r adv s s' caps] show ?thesis by auto
  next
    case None
    with "1.prems" obtain c cs pre' where
      s: "s = c # cs" and pre: "pre = c # pre'" and rec: "search r False cs = Some (pre', s', caps)"
      by (auto simp: search.simps [of r adv s] split: list.splits option.splits)
    from "1.IH" [OF None s rec] s pre show ?thesis by auto
  qed
qed

lemma search_None_False: "search r False s = None \<longleftrightarrow> \<not> occurs r s"
proof (induction s)
  case Nil
  have "match_at r False [] = None \<longleftrightarrow> [] \<notin> lang r"
  proof
    assume "match_at r False [] = None"
    then have e: "matches r 1 [] [] = []"
      by (cases "matches r 1 [] []") (auto simp: match_at_None)
    show "[] \<notin> lang r"
    proof
      assume "[] \<in> lang r"
      from matches_complete [OF this, of "[]" 1 "[]"] e show False by simp
    qed
  next
    assume n: "[] \<notin> lang r"
    show "match_at r False [] = None"
      unfolding match_at_None using n by (auto dest!: matches_sound)
  qed
  then show ?case
    by (auto simp: search.simps [of r False "[]"] occurs_def split: option.splits)
next
  case (Cons c cs)
  have m: "match_at r False (c # cs) = None \<longleftrightarrow> (\<forall>m post. c # cs = m @ post \<longrightarrow> m \<notin> lang r)"
  proof
    assume "match_at r False (c # cs) = None"
    then have e: "matches r 1 (c # cs) [] = []"
      by (cases "matches r 1 (c # cs) []") (auto simp: match_at_None)
    show "\<forall>m post. c # cs = m @ post \<longrightarrow> m \<notin> lang r"
    proof (intro allI impI notI)
      fix m post assume "c # cs = m @ post" "m \<in> lang r"
      with matches_complete [of m r post 1 "[]"] e show False by simp
    qed
  next
    assume n: "\<forall>m post. c # cs = m @ post \<longrightarrow> m \<notin> lang r"
    show "match_at r False (c # cs) = None"
      unfolding match_at_None using n by (auto dest!: matches_sound)
  qed
  have o: "occurs r (c # cs) \<longleftrightarrow> (\<exists>m post. c # cs = m @ post \<and> m \<in> lang r) \<or> occurs r cs"
    unfolding occurs_def
    apply (rule iffI)
     apply (elim exE conjE)
    subgoal for pre m post
      by (cases pre) auto
    apply (erule disjE)
     apply (metis append_Nil)
    apply (elim exE conjE)
    subgoal for pre m post
      by (rule exI [where x = "c # pre"]) auto
    done
  show ?case
    unfolding o using m Cons.IH
    by (auto simp: search.simps [of r False "c # cs"] split: option.splits)
qed

lemma search_None_any: "\<not> occurs r s \<Longrightarrow> search r adv s = None"
proof (cases adv)
  case True
  assume n: "\<not> occurs r s"
  then have f: "search r False s = None" by (simp add: search_None_False)
  then have "match_at r False s = None"
    by (auto simp: search.simps [of r False s] split: option.splits)
  then have "match_at r True s = None"
    by (auto simp: match_at_None)
  with f True show ?thesis
    by (auto simp: search.simps [of r _ s] split: option.splits list.splits)
next
  case False
  then show "\<not> occurs r s \<Longrightarrow> search r adv s = None" by (simp add: search_None_False)
qed


subsection \<open>Replacement templates\<close>

text \<open>
  A replacement template is a sequence of literal texts and references to groups by
  number. The template language's escapes for a newline and for a backslash stand for
  these characters and are part of the literal texts. A group that exists but did not
  take part in the match expands to the empty text.
\<close>

datatype titem = TLit string | TGroup nat

fun expand :: "titem list \<Rightarrow> groups \<Rightarrow> string" where
  "expand [] caps = []"
| "expand (TLit w # t) caps = w @ expand t caps"
| "expand (TGroup n # t) caps =
     (case map_of caps n of Some w \<Rightarrow> w | None \<Rightarrow> []) @ expand t caps"

text \<open>
  \<^verbatim>\<open>re.sub\<close> compiles the template before it searches: a reference to a group the
  pattern does not have raises \<^verbatim>\<open>re.error\<close> (``invalid group reference''),
  whether or not the pattern matches anywhere.
\<close>

fun valid_item :: "regex \<Rightarrow> titem \<Rightarrow> bool" where
  "valid_item r (TLit w) = True"
| "valid_item r (TGroup n) = (n \<le> ngroups r)"

definition valid_template :: "regex \<Rightarrow> titem list \<Rightarrow> bool" where
  "valid_template r t = list_all (valid_item r) t"

subsection \<open>Global substitution\<close>

text \<open>A search that succeeds makes progress: either text is consumed, or the match was
  empty and the next search must advance.\<close>

lemma search_shrinks:
  assumes "search r adv s = Some (pre, s', caps)"
  shows "2 * length s' + (if length pre + length s' = length s then 0 else 1)
         < 2 * length s + (if adv then 0 else (1::nat))"
proof -
  from search_sound [OF assms] obtain m where
    m: "s = pre @ m @ s'" "adv \<and> pre = [] \<longrightarrow> m \<noteq> []" by blast
  show ?thesis
  proof (cases "length pre + length s' = length s")
    case eq: True
    with m have e: "m = []" by auto
    show ?thesis
    proof (cases "pre = []")
      case True
      with m e have "\<not> adv" "s' = s" by auto
      with True show ?thesis by simp
    next
      case False
      with m e have "length s' < length s" by auto
      then show ?thesis by auto
    qed
  next
    case False
    with m have "length s' < length s" by auto
    with False show ?thesis by auto
  qed
qed

text \<open>
  The substitution loop of \<^verbatim>\<open>re.sub\<close>: search from the current position,
  copy the text skipped, append the expanded template, continue after the match. After an
  empty match the next search must advance. The text after the last match is copied.
\<close>

function subx :: "regex \<Rightarrow> titem list \<Rightarrow> bool \<Rightarrow> string \<Rightarrow> string" where
  "subx r t must_advance s =
     (case search r must_advance s of
        None \<Rightarrow> s
      | Some (pre, s', caps) \<Rightarrow>
          pre @ expand t caps @ subx r t (length pre + length s' = length s) s')"
  by pat_completeness auto
termination
proof (relation "measure (\<lambda>(r, t, adv, s). 2 * length s + (if adv then 0 else 1))")
  show "wf (measure (\<lambda>(r, t, adv, s). 2 * length s + (if adv then 0 else 1)))"
    by simp
next
  fix r :: regex and t :: "titem list" and must_advance s x2 x y xa ya
  assume "search r must_advance s = Some x2" "(x, y) = x2" "(xa, ya) = y"
  then have "search r must_advance s = Some (x, xa, ya)" by simp
  from search_shrinks [OF this]
  show "((r, t, length x + length xa = length s, xa), r, t, must_advance, s)
        \<in> measure (\<lambda>(r, t, adv, s). 2 * length s + (if adv then 0 else 1))"
    by simp
qed

declare subx.simps [simp del]

text \<open>
  The same loop, keeping what it found instead of substituting: the text cut into the
  stretches between matches and the matches themselves, each with its groups.
\<close>

datatype segment = Gap string | Match string groups

function segments :: "regex \<Rightarrow> bool \<Rightarrow> string \<Rightarrow> segment list" where
  "segments r must_advance s =
     (case search r must_advance s of
        None \<Rightarrow> [Gap s]
      | Some (pre, s', caps) \<Rightarrow>
          Gap pre # Match (take (length s - length pre - length s') (drop (length pre) s)) caps
            # segments r (length pre + length s' = length s) s')"
  by pat_completeness auto
termination
proof (relation "measure (\<lambda>(r, adv, s). 2 * length s + (if adv then 0 else 1))")
  show "wf (measure (\<lambda>(r, adv, s). 2 * length s + (if adv then 0 else 1)))"
    by simp
next
  fix r :: regex and must_advance s x2 x y xa ya
  assume "search r must_advance s = Some x2" "(x, y) = x2" "(xa, ya) = y"
  then have "search r must_advance s = Some (x, xa, ya)" by simp
  from search_shrinks [OF this]
  show "((r, length x + length xa = length s, xa), r, must_advance, s)
        \<in> measure (\<lambda>(r, adv, s). 2 * length s + (if adv then 0 else 1))"
    by simp
qed

declare segments.simps [simp del]

fun source_text :: "segment \<Rightarrow> string" where
  "source_text (Gap w) = w"
| "source_text (Match m caps) = m"

fun render :: "titem list \<Rightarrow> segment \<Rightarrow> string" where
  "render t (Gap w) = w"
| "render t (Match m caps) = expand t caps"

fun is_match_of :: "regex \<Rightarrow> segment \<Rightarrow> bool" where
  "is_match_of r (Gap w) = True"
| "is_match_of r (Match m caps) = (m \<in> lang r \<and> map_of caps 0 = Some m)"

text \<open>
  Global replacement in the specification's words, for a pattern that does not match the
  empty text: a text in which the pattern has no match is left as it is; otherwise the
  leftmost match (no match begins before it) is replaced by the template with its group
  references resolved, the text before it is kept, and the text after it is treated in
  the same way, so that the matches replaced do not overlap.
\<close>

inductive replaced_all :: "regex \<Rightarrow> titem list \<Rightarrow> string \<Rightarrow> string \<Rightarrow> bool"
  for r :: regex and t :: "titem list" where
  no_match: "\<not> occurs r s \<Longrightarrow> replaced_all r t s s"
| leftmost_match:
    "m \<in> lang r \<Longrightarrow> map_of caps 0 = Some m \<Longrightarrow>
     (\<forall>p1 p2. pre = p1 @ p2 \<and> p2 \<noteq> [] \<longrightarrow> \<not> starts r (p2 @ m @ rest)) \<Longrightarrow>
     replaced_all r t rest out \<Longrightarrow>
     replaced_all r t (pre @ m @ rest) (pre @ expand t caps @ out)"

subsection \<open>Errors, \<^verbatim>\<open>re.sub\<close> and the rule loop\<close>

text \<open>The exceptions that can end the script: a bad template, a missing file, a file
  that may not be read or written.\<close>

datatype error = ReError | FileNotFoundError string | PermissionError string

definition re_sub :: "regex \<Rightarrow> titem list \<Rightarrow> string \<Rightarrow> error + string" where
  "re_sub pattern repl s =
     (if valid_template pattern repl then Inr (subx pattern repl False s) else Inl ReError)"

text \<open>
  \<^verbatim>\<open>
  for pattern, replacement in replacements:
      content = re.sub(pattern, replacement, content)
  \<close>
  An exception leaves the loop at once.
\<close>

fun sub_loop :: "(regex \<times> titem list) list \<Rightarrow> string \<Rightarrow> error + string" where
  "sub_loop [] content = Inr content"
| "sub_loop ((pattern, replacement) # rest) content =
     (case re_sub pattern replacement content of
        Inl e \<Rightarrow> Inl e
      | Inr content' \<Rightarrow> sub_loop rest content')"

subsection \<open>Facts about substitution\<close>

lemma subx_None: "search r adv s = None \<Longrightarrow> subx r t adv s = s"
  by (subst subx.simps) simp

lemma subx_Some:
  "search r adv s = Some (pre, s', caps) \<Longrightarrow>
   subx r t adv s = pre @ expand t caps @ subx r t (length pre + length s' = length s) s'"
  by (subst subx.simps) simp

lemma segments_None: "search r adv s = None \<Longrightarrow> segments r adv s = [Gap s]"
  by (subst segments.simps) simp

lemma segments_Some:
  "search r adv s = Some (pre, s', caps) \<Longrightarrow>
   segments r adv s
   = Gap pre # Match (take (length s - length pre - length s') (drop (length pre) s)) caps
       # segments r (length pre + length s' = length s) s'"
  by (subst segments.simps) simp

lemma segments_source: "concat (map source_text (segments r adv s)) = s"
proof (induction r adv s rule: segments.induct)
  case (1 r adv s)
  show ?case
  proof (cases "search r adv s")
    case None
    then show ?thesis by (simp add: segments_None)
  next
    case (Some a)
    obtain pre s' caps where a: "a = (pre, s', caps)" by (cases a)
    from search_sound [OF Some [unfolded a]] obtain m where m: "s = pre @ m @ s'" by blast
    have "concat (map source_text (segments r (length pre + length s' = length s) s')) = s'"
      using Some a by (intro "1.IH") auto
    moreover note segments_Some [OF Some [unfolded a]]
    ultimately show ?thesis using m by simp
  qed
qed

lemma segments_render: "concat (map (render t) (segments r adv s)) = subx r t adv s"
proof (induction r adv s rule: segments.induct)
  case (1 r adv s)
  show ?case
  proof (cases "search r adv s")
    case None
    then show ?thesis by (simp add: segments_None subx_None)
  next
    case (Some a)
    obtain pre s' caps where a: "a = (pre, s', caps)" by (cases a)
    have "concat (map (render t) (segments r (length pre + length s' = length s) s'))
          = subx r t (length pre + length s' = length s) s'"
      using Some a by (intro "1.IH") auto
    with Some a show ?thesis
      by (simp add: segments_Some [of r adv s pre s' caps] subx_Some [of r adv s pre s' caps])
  qed
qed

lemma segments_matches: "list_all (is_match_of r) (segments r adv s)"
proof (induction r adv s rule: segments.induct)
  case (1 r adv s)
  show ?case
  proof (cases "search r adv s")
    case None
    then show ?thesis by (simp add: segments_None)
  next
    case (Some a)
    obtain pre s' caps where a: "a = (pre, s', caps)" by (cases a)
    from search_sound [OF Some [unfolded a]] obtain m where
      m: "s = pre @ m @ s'" "m \<in> lang r" "map_of caps 0 = Some m" by blast
    have "list_all (is_match_of r) (segments r (length pre + length s' = length s) s')"
      using Some a by (intro "1.IH") auto
    moreover note segments_Some [OF Some [unfolded a]]
    ultimately show ?thesis using m by simp
  qed
qed

lemma subx_no_match: "\<not> occurs r s \<Longrightarrow> subx r t adv s = s"
  by (simp add: subx_None search_None_any)

lemma foldl_Inl:
  "foldl (\<lambda>acc (p, t). case acc of Inl e \<Rightarrow> Inl e | Inr c \<Rightarrow> re_sub p t c) (Inl e) rules = Inl e"
  by (induction rules) auto

lemma sub_loop_foldl:
  "sub_loop rules content
   = foldl (\<lambda>acc (p, t). case acc of Inl e \<Rightarrow> Inl e | Inr c \<Rightarrow> re_sub p t c) (Inr content) rules"
  by (induction rules content rule: sub_loop.induct) (auto simp: foldl_Inl split: sum.splits)

lemma sub_loop_append:
  "sub_loop (rs1 @ rs2) content
   = (case sub_loop rs1 content of Inl e \<Rightarrow> Inl e | Inr c \<Rightarrow> sub_loop rs2 c)"
  by (induction rs1 content rule: sub_loop.induct) (auto split: sum.splits)

lemma sub_loop_fixed:
  "list_all (\<lambda>(p, t). valid_template p t \<and> \<not> occurs p c) rules \<Longrightarrow> sub_loop rules c = Inr c"
  by (induction rules) (auto simp: re_sub_def subx_no_match)

lemma sub_loop_valid:
  "sub_loop rules c = Inr c' \<Longrightarrow> list_all (\<lambda>(p, t). valid_template p t) rules"
  by (induction rules c rule: sub_loop.induct) (auto simp: re_sub_def split: sum.splits if_splits)


lemma match_at_None_starts: "match_at r False s = None \<longleftrightarrow> \<not> starts r s"
proof
  assume "match_at r False s = None"
  then have e: "matches r 1 s [] = []"
    by (cases "matches r 1 s []") (auto simp: match_at_None)
  show "\<not> starts r s"
  proof
    assume "starts r s"
    then obtain w post where "s = w @ post" "w \<in> lang r" by (auto simp: starts_def)
    with matches_complete [of w r post 1 "[]"] e show False by simp
  qed
next
  assume n: "\<not> starts r s"
  show "match_at r False s = None"
    unfolding match_at_None using n by (auto simp: starts_def dest!: matches_sound)
qed

lemma search_leftmost:
  "search r False s = Some (pre, s', caps) \<Longrightarrow> pre = p1 @ p2 \<Longrightarrow> p2 \<noteq> [] \<Longrightarrow>
   \<not> starts r (drop (length p1) s)"
proof (induction s arbitrary: pre p1)
  case Nil
  then show ?case
    by (auto simp: search.simps [of r False "[]"] split: option.splits)
next
  case (Cons c cs)
  from Cons.prems(2,3) have "pre \<noteq> []" by simp
  with Cons.prems(1) have none: "match_at r False (c # cs) = None"
    by (auto simp: search.simps [of r False "c # cs"] split: option.splits)
  with Cons.prems(1) have "\<exists>pre'. pre = c # pre' \<and> search r False cs = Some (pre', s', caps)"
    by (auto simp: search.simps [of r False "c # cs"] split: option.splits)
  then obtain pre' where pre: "pre = c # pre'"
    and rec: "search r False cs = Some (pre', s', caps)" by blast
  show ?case
  proof (cases p1)
    case Nil
    with none show ?thesis by (simp add: match_at_None_starts)
  next
    case (Cons a p1')
    with pre Cons.prems have "pre' = p1' @ p2" by simp
    from Cons.IH [OF rec this Cons.prems(3)] Cons show ?thesis by simp
  qed
qed

lemma subx_replaced_all:
  "\<not> nullable r \<Longrightarrow> replaced_all r t s (subx r t False s)"
proof (induction s rule: length_induct)
  case (1 s)
  show ?case
  proof (cases "search r False s")
    case None
    then show ?thesis
      by (simp add: subx_None search_None_False no_match)
  next
    case (Some x)
    obtain pre s' caps where x: "x = (pre, s', caps)" by (cases x)
    note found = Some [unfolded x]
    from search_sound [OF found] obtain m where
      m: "m \<in> lang r" "s = pre @ m @ s'" "map_of caps 0 = Some m" by blast
    from m(1) "1.prems" have ne: "m \<noteq> []" by (auto simp: nullable_lang)
    with m(2) have adv: "(length pre + length s' = length s) = False" and shorter: "length s' < length s"
      by auto
    have left: "\<forall>p1 p2. pre = p1 @ p2 \<and> p2 \<noteq> [] \<longrightarrow> \<not> starts r (p2 @ m @ s')"
    proof (intro allI impI, elim conjE)
      fix p1 p2 assume "pre = p1 @ p2" "p2 \<noteq> []"
      from search_leftmost [OF found this] m(2) \<open>pre = p1 @ p2\<close>
      show "\<not> starts r (p2 @ m @ s')" by simp
    qed
    from "1.IH" shorter "1.prems" have "replaced_all r t s' (subx r t False s')" by blast
    from leftmost_match [OF m(1) m(3) left this] show ?thesis
      by (simp add: subx_Some [OF found] adv m(2) [symmetric])
  qed
qed

subsection \<open>Evaluating the matcher\<close>

text \<open>
  Equations that run the matcher on a concrete text one character at a time, and a
  search that skips the positions at which no match can start.
\<close>

lemma matches_Seq_Eps: "matches (Seq a Eps) g s caps = matches a g s caps"
  by (simp add: split_def)

lemma matches_Eps_Seq: "matches (Seq Eps r) g s caps = matches r g s caps"
  by simp

lemma matches_Seq_assoc:
  "matches (Seq (Seq a b) c) g s caps = matches (Seq a (Seq b c)) g s caps"
proof -
  have "concat (map f (concat (map h xs))) = concat (map (\<lambda>x. concat (map f (h x))) xs)"
    for f :: "string \<times> groups \<Rightarrow> (string \<times> groups) list" and h and xs :: "(string \<times> groups) list"
    by (induction xs) simp_all
  then show ?thesis
    by (simp add: split_def add.assoc)
qed

lemma matches_Atom_Cons:
  "matches (Seq (Atom c) r) g (x # xs) caps = (if in_class c x then matches r g xs caps else [])"
  by simp

lemma matches_Atom_Nil: "matches (Seq (Atom c) r) g [] caps = []"
  by simp

lemma matches_lit_Nil: "matches (Seq (lit []) r) g s caps = matches r g s caps"
  by simp

lemma matches_lit_Cons:
  "matches (Seq (lit (c # cs)) r) g (x # xs) caps
   = (if x = c then matches (Seq (lit cs) r) g xs caps else [])"
proof -
  have "ngroups (lit w) = 0" for w by (induction w) simp_all
  then show ?thesis
    by (simp add: matches_Seq_assoc)
qed

lemma matches_lit_Cons_Nil: "matches (Seq (lit (c # cs)) r) g [] caps = []"
  by simp

lemma star_splits:
  "P x \<Longrightarrow> map (\<lambda>j. (drop j (x # xs), caps)) (rev [0 ..< Suc (length (takeWhile P (x # xs)))])
   = map (\<lambda>j. (drop j xs, caps)) (rev [0 ..< Suc (length (takeWhile P xs))]) @ [(x # xs, caps)]"
proof -
  assume "P x"
  have "[0 ..< Suc (Suc n)] = 0 # map Suc [0 ..< Suc n]" for n
    by (metis map_Suc_upt upt_conv_Cons zero_less_Suc)
  then show ?thesis using \<open>P x\<close>
    by (simp add: rev_map comp_def del: upt_Suc)
qed

lemma matches_Star_Cons:
  "matches (Seq (Star c) r) g (x # xs) caps
   = (if in_class c x
      then matches (Seq (Star c) r) g xs caps @ matches r g (x # xs) caps
      else matches r g (x # xs) caps)"
proof (cases "in_class c x")
  case True
  have "matches (Star c) g (x # xs) caps = matches (Star c) g xs caps @ [(x # xs, caps)]"
    unfolding matches.simps by (rule star_splits [of "in_class c" x, OF True])
  then show ?thesis
    using True by (simp del: matches.simps(4))
next
  case False
  then show ?thesis by simp
qed

lemma matches_Star_Nil: "matches (Seq (Star c) r) g [] caps = matches r g [] caps"
  by simp

lemma matches_Plus_Cons:
  "matches (Seq (Plus c) r) g (x # xs) caps
   = (if in_class c x then matches (Seq (Star c) r) g xs caps else [])"
proof (cases "in_class c x")
  case True
  have "[1 ..< Suc (Suc n)] = map Suc [0 ..< Suc n]" for n
    by (metis One_nat_def map_Suc_upt)
  then show ?thesis using True
    by (simp add: rev_map comp_def del: upt_Suc)
next
  case False
  then show ?thesis by simp
qed

lemma matches_Plus_Nil: "matches (Seq (Plus c) r) g [] caps = []"
  by simp

lemma matches_Group_Seq:
  "matches (Seq (Group a) r) g s caps
   = concat (map (\<lambda>(s', caps'). matches r (Suc (g + ngroups a)) s' caps')
       (matches (Group a) g s caps))"
  by simp

lemma matches_Group:
  "matches (Group a) g s caps
   = map (\<lambda>(s', caps'). (s', (g, take (length s - length s') s) # caps'))
       (matches (Seq a Eps) (Suc g) s caps)"
  by (simp add: split_def)

lemma match_at_False:
  "match_at r False s
   = (case matches (Seq r Eps) 1 s [] of
        [] \<Rightarrow> None
      | (s', caps) # _ \<Rightarrow> Some (s', (0, take (length s - length s') s) # caps))"
proof -
  have "filter (\<lambda>(s', caps). True) xs = xs" for xs :: "(string \<times> groups) list"
    by (induction xs) auto
  then show ?thesis
    by (simp add: match_at_def matches_Seq_Eps del: matches.simps)
qed

fun can_start :: "regex \<Rightarrow> char \<Rightarrow> bool" where
  "can_start Eps x = False"
| "can_start (Atom c) x = in_class c x"
| "can_start (Seq a b) x = (can_start a x \<or> (nullable a \<and> can_start b x))"
| "can_start (Star c) x = in_class c x"
| "can_start (Plus c) x = in_class c x"
| "can_start (Group r) x = can_start r x"

lemma can_start_lang: "x # m \<in> lang r \<Longrightarrow> can_start r x"
proof (induction r arbitrary: m)
  case (Seq r1 r2)
  then obtain u v where uv: "x # m = u @ v" "u \<in> lang r1" "v \<in> lang r2" by auto
  show ?case
  proof (cases u)
    case Nil
    with uv Seq.IH(2) [of m] show ?thesis by (auto simp: nullable_lang)
  next
    case (Cons a u')
    with uv Seq.IH(1) [of u'] show ?thesis by auto
  qed
qed auto

lemma match_at_cannot_start:
  assumes "\<not> can_start r x" "\<not> nullable r"
  shows "match_at r adv (x # xs) = None"
proof (cases "match_at r adv (x # xs)")
  case None
  then show ?thesis .
next
  case (Some a)
  obtain s' caps where a: "a = (s', caps)" by (cases a)
  from match_at_sound [OF Some [unfolded a]] obtain m where
    m: "m \<in> lang r" "x # xs = m @ s'" by blast
  show ?thesis
  proof (cases m)
    case Nil
    with m assms show ?thesis by (simp add: nullable_lang)
  next
    case (Cons y m')
    with m have "x # m' \<in> lang r" by simp
    from can_start_lang [OF this] assms show ?thesis by simp
  qed
qed

lemma match_at_Nil_not_nullable:
  assumes "\<not> nullable r"
  shows "match_at r adv [] = None"
proof (cases "match_at r adv []")
  case None
  then show ?thesis .
next
  case (Some a)
  obtain s' caps where a: "a = (s', caps)" by (cases a)
  from match_at_sound [OF Some [unfolded a]] assms show ?thesis
    by (auto simp: nullable_lang)
qed

lemma search_Nil:
  "search r adv []
   = (if nullable r
      then (case match_at r adv [] of Some (s', caps) \<Rightarrow> Some ([], s', caps) | None \<Rightarrow> None)
      else None)"
  by (simp add: search.simps [of r adv "[]"] match_at_Nil_not_nullable split: option.splits)

lemma search_Cons:
  "search r False (x # xs)
   = (if can_start r x \<or> nullable r
      then (case match_at r False (x # xs) of
              Some (s', caps) \<Rightarrow> Some ([], s', caps)
            | None \<Rightarrow>
                (case search r False xs of
                   None \<Rightarrow> None
                 | Some (pre, s', caps) \<Rightarrow> Some (x # pre, s', caps)))
      else (case search r False xs of
              None \<Rightarrow> None
            | Some (pre, s', caps) \<Rightarrow> Some (x # pre, s', caps)))"
  by (simp add: search.simps [of r False "x # xs"] match_at_cannot_start split: option.splits)

lemma ngroups_lit [simp]: "ngroups (lit w) = 0"
  by (induction w) simp_all

lemma nullable_lit [simp]: "nullable (lit w) = (w = [])"
  by (cases w) simp_all

lemma can_start_lit_Cons [simp]: "can_start (lit (c # cs)) x = (x = c)"
  by simp

declare matches.simps(3,6) [simp del]
declare lit.simps [simp del]

lemmas regex_eval =
  matches_Eps_Seq matches_Seq_assoc matches_Atom_Cons matches_Atom_Nil
  matches_lit_Nil matches_lit_Cons matches_lit_Cons_Nil
  matches_Star_Cons matches_Star_Nil matches_Plus_Cons matches_Plus_Nil
  matches_Group_Seq matches_Group match_at_False
  search_Nil search_Cons subx.simps segments.simps is_space_def

section \<open>The script\<close>

subsection \<open>The rule tables\<close>

text \<open>
  The tables of the script, pattern by pattern and template by template. In a template a
  doubled backslash is the template language's escape for one backslash: the labels
  contain Swift string interpolations, a backslash followed by a parenthesis.
\<close>

definition backslash :: string where
  "backslash = [CHR 0x5C]"

text \<open>
  The ten rules for the heads-up display view, one constant for each row of the table
  \<^verbatim>\<open>replacements\<close>, named after what the rule adds.
\<close>

definition headline_rule :: "regex \<times> titem list" where
  \<open>headline_rule =
     (Group (lit ''.foregroundStyle(headlineColor)''),
      [TGroup 1,
       TLit ''\<newline>          .accessibilityLabel("Status: '',
       TLit backslash,
       TLit ''(manager.snapshot.headline)")''])\<close>

definition subheadline_rule :: "regex \<times> titem list" where
  \<open>subheadline_rule =
     (Group (seqs [lit ''Text(sub)'',
                   Plus Space,
                   lit ''.font(.subheadline)'',
                   Plus Space,
                   lit ''.foregroundStyle(.secondary)'']),
      [TGroup 1,
       TLit ''\<newline>            .accessibilityLabel(sub)''])\<close>

definition retry_hint_rule :: "regex \<times> titem list" where
  \<open>retry_hint_rule =
     (seqs [Group (lit ''.padding(.top, 4)''),
            Group (seqs [Plus Space,
                         lit ''}''])],
      [TGroup 1,
       TLit ''\<newline>            .accessibilityHint("Press Command-R to retry the operation")'',
       TGroup 2])\<close>

definition audio_meter_rule :: "regex \<times> titem list" where
  \<open>audio_meter_rule =
     (Group (seqs [lit ''AudioLevelMeterView(level: manager.audioLevel, width: 100, height: 4)'',
                   Plus Space,
                   lit ''.padding(.top, 2)'']),
      [TGroup 1,
       TLit ''\<newline>          .accessibilityLabel("Audio level meter")\<newline>          .accessibilityValue("'',
       TLit backslash,
       TLit ''(Int(manager.audioLevel * 100)) percent")''])\<close>

definition elapsed_time_rule :: "regex \<times> titem list" where
  \<open>elapsed_time_rule =
     (Group (seqs [lit ''Text(elapsedText)'',
                   Plus Space,
                   lit ''.font(.caption.monospacedDigit())'',
                   Plus Space,
                   lit ''.foregroundStyle(.secondary)'']),
      [TGroup 1,
       TLit ''\<newline>          .accessibilityLabel("Elapsed time: '',
       TLit backslash,
       TLit ''(elapsedText)")''])\<close>

definition transcript_rule :: "regex \<times> titem list" where
  \<open>transcript_rule =
     (Group (lit ''.animation(.easeInOut(duration: 0.2), value: isFinal)''),
      [TGroup 1,
       TLit ''\<newline>        .accessibilityLabel(isFinal ? "Transcript: '',
       TLit backslash,
       TLit ''(text)" : "Partial transcript: '',
       TLit backslash,
       TLit ''(text)")''])\<close>

definition confidence_rule :: "regex \<times> titem list" where
  \<open>confidence_rule =
     (Group (seqs [lit ''Capsule()'',
                   Plus Space,
                   lit ''.fill(.quaternary)'',
                   Plus Space,
                   lit '')'']),
      [TGroup 1,
       TLit ''\<newline>          .accessibilityLabel("Confidence: '',
       TLit backslash,
       TLit ''(Int(confidence * 100)) percent")''])\<close>

definition error_icon_rule :: "regex \<times> titem list" where
  \<open>error_icon_rule =
     (Group (seqs [lit ''Image(systemName: "exclamationmark.triangle.fill")'',
                   Plus Space,
                   lit ''.font(.system(size: 32, weight: .bold))'',
                   Plus Space,
                   lit ''.foregroundStyle(phaseColor.gradient)'',
                   Plus Space,
                   lit ''.scaleEffect(scale)'',
                   Plus Space,
                   lit ''.shadow(color: phaseColor.opacity(0.45), radius: 10, x: 0, y: 6)'']),
      [TGroup 1,
       TLit ''\<newline>          .accessibilityLabel("Error indicator")''])\<close>

definition success_icon_rule :: "regex \<times> titem list" where
  \<open>success_icon_rule =
     (Group (seqs [lit ''Image(systemName: "checkmark.circle.fill")'',
                   Plus Space,
                   lit ''.font(.system(size: 28, weight: .semibold))'',
                   Plus Space,
                   lit ''.foregroundStyle(phaseColor)'',
                   Plus Space,
                   lit ''.shadow(color: phaseColor.opacity(0.3), radius: 6, x: 0, y: 4)'']),
      [TGroup 1,
       TLit ''\<newline>        .accessibilityLabel("Success indicator")''])\<close>

definition recording_icon_rule :: "regex \<times> titem list" where
  \<open>recording_icon_rule =
     (Group (seqs [lit ''Circle()'',
                   Plus Space,
                   lit ''.fill(phaseColor.gradient)'',
                   Plus Space,
                   lit ''.frame(width: 18, height: 18)'',
                   Plus Space,
                   lit ''.scaleEffect(scale)'',
                   Plus Space,
                   lit ''.shadow(color: phaseColor.opacity(0.4), radius: 6, x: 0, y: 4)'']),
      [TGroup 1,
       TLit ''\<newline>          .accessibilityLabel("Recording status indicator")''])\<close>

definition replacements :: "(regex \<times> titem list) list" where
  "replacements =
     [headline_rule, subheadline_rule, retry_hint_rule, audio_meter_rule, elapsed_time_rule,
      transcript_rule, confidence_rule, error_icon_rule, success_icon_rule,
      recording_icon_rule]"

text \<open>
  The helper property that the third rule for the main view puts in front of the marker
  comment. It contains no backslash, so \<^verbatim>\<open>re.sub\<close> takes it literally.
\<close>

definition helper :: string where
  \<open>helper =
     ''\<newline>''
     @ ''  \<newline>''
     @ ''  private var accessibilityLabelForRecordButton: String {\<newline>''
     @ ''    switch environment.main.state {\<newline>''
     @ ''    case .idle, .completed(_), .failed(_):\<newline>''
     @ ''      return "Start recording"\<newline>''
     @ ''    case .recording:\<newline>''
     @ ''      return "Stop recording"\<newline>''
     @ ''    case .processing:\<newline>''
     @ ''      return "Processing recording"\<newline>''
     @ ''    case .delivering:\<newline>''
     @ ''      return "Delivering transcription"\<newline>''
     @ ''    }\<newline>''
     @ ''  }\<newline>''
     @ ''}\<newline>''
     @ ''\<newline>''
     @ ''// @Implement This is the main app container''\<close>

text \<open>
  The main view is patched by three \<^verbatim>\<open>re.sub\<close> calls in a row, each on the
  result of the one before: the same as the loop over a list of three rules.
\<close>

definition record_button_rule :: "regex \<times> titem list" where
  \<open>record_button_rule =
     (Group (lit ''.speakTooltip("Start or stop a recording from anywhere in Speak. We'll let you know when we're listening.")''),
      [TGroup 1,
       TLit ''\<newline>      .accessibilityLabel(accessibilityLabelForRecordButton)''])\<close>

definition current_mode_rule :: "regex \<times> titem list" where
  \<open>current_mode_rule =
     (Group (seqs [lit ''.strokeBorder(.secondary.opacity(0.3), lineWidth: 0.5)'',
                   Plus Space,
                   lit '')'']),
      [TGroup 1,
       TLit ''\<newline>      .accessibilityLabel("Current mode: '',
       TLit backslash,
       TLit ''(environment.settings.transcriptionMode.displayName)")''])\<close>

definition helper_rule :: "regex \<times> titem list" where
  \<open>helper_rule =
     (seqs [lit ''}'',
            Star Space,
            lit ''\<newline>'',
            Star Space,
            lit ''// @Implement This is the main app container''],
      [TLit helper])\<close>

definition main_rules :: "(regex \<times> titem list) list" where
  "main_rules = [record_button_rule, current_mode_rule, helper_rule]"

text \<open>The five positional inserts for the settings view (\<^verbatim>\<open>inserts\<close>).\<close>

definition inserts :: "(int \<times> string) list" where
  \<open>inserts =
   [(254, ''          .accessibilityLabel("Appearance theme picker")\<newline>''),
    (274, ''          .accessibilityLabel("Text output method picker")\<newline>''),
    (353, ''          .accessibilityLabel("Audio input device picker")\<newline>''),
    (655, ''          .accessibilityLabel("Transcription mode picker")\<newline>''),
    (670, ''          .accessibilityLabel("Preferred locale picker")\<newline>'')]\<close>

subsection \<open>Files\<close>

text \<open>
  A file has a text and may or may not be readable and writable. Opening a missing file
  for reading raises \<^verbatim>\<open>FileNotFoundError\<close>; opening a file without the
  permission raises \<^verbatim>\<open>PermissionError\<close> and leaves it as it was. Opening for
  writing creates a missing file.
\<close>

record disk_file =
  data :: string
  readable :: bool
  writable :: bool

type_synonym filesystem = "string \<rightharpoonup> disk_file"

definition read_text :: "filesystem \<Rightarrow> string \<Rightarrow> error + string" where
  "read_text fs path =
     (case fs path of
        None \<Rightarrow> Inl (FileNotFoundError path)
      | Some f \<Rightarrow> if readable f then Inr (data f) else Inl (PermissionError path))"

definition write_text :: "filesystem \<Rightarrow> string \<Rightarrow> string \<Rightarrow> error + filesystem" where
  "write_text fs path new_content =
     (case fs path of
        None \<Rightarrow> Inr (fs(path \<mapsto> \<lparr>data = new_content, readable = True, writable = True\<rparr>))
      | Some f \<Rightarrow>
          if writable f then Inr (fs(path \<mapsto> f\<lparr>data := new_content\<rparr>))
          else Inl (PermissionError path))"

text \<open>
  \<^verbatim>\<open>f.readlines()\<close> cuts the text after every newline; each line keeps its
  newline, and a last line without one is a line too. \<^verbatim>\<open>f.writelines(lines)\<close>
  writes the lines one after the other.
\<close>

fun readlines :: "string \<Rightarrow> string list" where
  "readlines [] = []"
| "readlines (c # cs) =
     (if c = CHR ''\<newline>'' then [c] # readlines cs
      else (case readlines cs of [] \<Rightarrow> [[c]] | l # ls \<Rightarrow> (c # l) # ls))"

definition writelines :: "string list \<Rightarrow> string" where
  "writelines lines = concat lines"

subsection \<open>The two operations on a file\<close>

text \<open>Read the file, run the rule loop over its text, write the result back.\<close>

definition apply_pattern_rules ::
  "string \<Rightarrow> (regex \<times> titem list) list \<Rightarrow> filesystem \<Rightarrow> error + filesystem" where
  "apply_pattern_rules path rules fs =
     (case read_text fs path of
        Inl e \<Rightarrow> Inl e
      | Inr content \<Rightarrow>
          (case sub_loop rules content of
             Inl e \<Rightarrow> Inl e
           | Inr content' \<Rightarrow> write_text fs path content'))"

text \<open>Read the file as lines, run the insert loop, write the lines back.\<close>

definition apply_positional_rules ::
  "string \<Rightarrow> (int \<times> string) list \<Rightarrow> filesystem \<Rightarrow> error + filesystem" where
  "apply_positional_rules path ins fs =
     (case read_text fs path of
        Inl e \<Rightarrow> Inl e
      | Inr content \<Rightarrow> write_text fs path (writelines (apply_inserts (readlines content) ins)))"

subsection \<open>The run\<close>

definition hud_path :: string where
  "hud_path = ''Sources/SpeakApp/HUDView.swift''"

definition main_path :: string where
  "main_path = ''Sources/SpeakApp/MainView.swift''"

definition settings_path :: string where
  "settings_path = ''Sources/SpeakApp/SettingsView.swift''"

text \<open>The check mark that starts every message, U+2705, as its three UTF-8 bytes.\<close>

definition check_mark :: string where
  "check_mark = [CHR 0xE2, CHR 0x9C, CHR 0x85]"

definition hud_message :: string where
  "hud_message = check_mark @ '' HUDView.swift updated''"

definition main_message :: string where
  "main_message = check_mark @ '' MainView.swift updated''"

definition settings_message :: string where
  "settings_message = check_mark @ '' SettingsView.swift updated''"

definition final_message :: string where
  "final_message = ''\<newline>'' @ check_mark @ '' All files updated with accessibility labels!''"

text \<open>
  The script from top to bottom: the three files one after the other, a message after
  each, a last message at the end. An exception ends the run where it is raised; the
  result is the file system as it is then, the messages printed so far, and the exception
  if there was one.
\<close>

definition run :: "filesystem \<Rightarrow> filesystem \<times> string list \<times> error option" where
  "run fs0 =
     (case apply_pattern_rules hud_path replacements fs0 of
        Inl e \<Rightarrow> (fs0, [], Some e)
      | Inr fs1 \<Rightarrow>
          (case apply_pattern_rules main_path main_rules fs1 of
             Inl e \<Rightarrow> (fs1, [hud_message], Some e)
           | Inr fs2 \<Rightarrow>
               (case apply_positional_rules settings_path inserts fs2 of
                  Inl e \<Rightarrow> (fs2, [hud_message, main_message], Some e)
                | Inr fs3 \<Rightarrow>
                    (fs3, [hud_message, main_message, settings_message, final_message],
                     None))))"

subsection \<open>Facts about the run\<close>

lemma readlines_concat: "concat (readlines s) = s"
  by (induction s) (auto split: list.splits)

lemmas hud_rule_defs =
  headline_rule_def subheadline_rule_def retry_hint_rule_def audio_meter_rule_def
  elapsed_time_rule_def transcript_rule_def confidence_rule_def error_icon_rule_def
  success_icon_rule_def recording_icon_rule_def

lemmas main_rule_defs = record_button_rule_def current_mode_rule_def helper_rule_def

lemma replacements_valid: "list_all (\<lambda>(p, t). valid_template p t) replacements"
  by (simp add: replacements_def hud_rule_defs valid_template_def)

lemma main_rules_valid: "list_all (\<lambda>(p, t). valid_template p t) main_rules"
  by (simp add: main_rules_def main_rule_defs valid_template_def)

lemma sub_loop_total:
  "list_all (\<lambda>(p, t). valid_template p t) rules \<Longrightarrow> \<exists>c'. sub_loop rules c = Inr c'"
  by (induction rules arbitrary: c) (auto simp: re_sub_def)

lemma apply_pattern_rules_Inr:
  "apply_pattern_rules path rules fs = Inr fs' \<Longrightarrow>
   \<exists>f c'. fs path = Some f \<and> sub_loop rules (data f) = Inr c'
          \<and> fs' = fs(path \<mapsto> f\<lparr>data := c'\<rparr>)"
  by (auto simp: apply_pattern_rules_def read_text_def write_text_def
      split: option.splits sum.splits if_splits)

lemma apply_pattern_rules_read_fails:
  "read_text fs path = Inl e \<Longrightarrow> apply_pattern_rules path rules fs = Inl e"
  by (simp add: apply_pattern_rules_def)

lemma apply_positional_rules_read_fails:
  "read_text fs path = Inl e \<Longrightarrow> apply_positional_rules path ins fs = Inl e"
  by (simp add: apply_positional_rules_def)

lemma read_text_other:
  "path' \<noteq> path \<Longrightarrow> read_text (fs(path \<mapsto> f)) path' = read_text fs path'"
  by (simp add: read_text_def)

lemma paths_distinct:
  "hud_path \<noteq> main_path" "hud_path \<noteq> settings_path" "main_path \<noteq> settings_path"
  by (simp_all add: hud_path_def main_path_def settings_path_def)

section \<open>Counting lines\<close>

text \<open>
  The number of lines of a text is the number of lines \<^verbatim>\<open>readlines\<close> cuts it
  into: one for every newline, and one more for a last line without a newline.
\<close>

definition newlines :: "string \<Rightarrow> nat" where
  "newlines s = length (filter (\<lambda>c. c = CHR ''\<newline>'') s)"

definition line_count :: "string \<Rightarrow> nat" where
  "line_count s = length (readlines s)"

text \<open>How many matches a rule replaced, and how many lines its template holds.\<close>

fun nmatches :: "segment list \<Rightarrow> nat" where
  "nmatches [] = 0"
| "nmatches (Gap w # segs) = nmatches segs"
| "nmatches (Match m caps # segs) = Suc (nmatches segs)"

fun template_text :: "titem list \<Rightarrow> string" where
  "template_text [] = []"
| "template_text (TLit w # t) = w @ template_text t"
| "template_text (TGroup n # t) = template_text t"

text \<open>
  The rule loop with a ghost variable: for every rule, the number of matches it replaced
  in the text as the rules before it left it.
\<close>

fun match_counts :: "(regex \<times> titem list) list \<Rightarrow> string \<Rightarrow> nat list" where
  "match_counts [] c = []"
| "match_counts ((p, t) # rest) c =
     nmatches (segments p False c) # match_counts rest (subx p t False c)"

definition rules_matched :: "(regex \<times> titem list) list \<Rightarrow> string \<Rightarrow> nat" where
  "rules_matched rules c = length (filter (\<lambda>n. 0 < n) (match_counts rules c))"

text \<open>
  The lines the loop inserts: for every rule, the newlines in the literal text of its
  template, once for every match it replaced.
\<close>

definition inserted_lines :: "(regex \<times> titem list) list \<Rightarrow> string \<Rightarrow> nat" where
  "inserted_lines rules c =
     sum_list (map2 (\<lambda>(p, t) n. n * newlines (template_text t)) rules (match_counts rules c))"

text \<open>Two texts end alike: both are empty, or neither is and both or neither end in a newline.\<close>

definition same_end :: "string \<Rightarrow> string \<Rightarrow> bool" where
  "same_end a b =
     ((a = [] \<longleftrightarrow> b = []) \<and> (a \<noteq> [] \<longrightarrow> (last a = CHR ''\<newline>'' \<longleftrightarrow> last b = CHR ''\<newline>'')))"

text \<open>
  Static checks on a rule: the template item is a literal; the pattern matches only the
  empty text; every text the pattern matches ends in the same character.
\<close>

fun is_lit :: "titem \<Rightarrow> bool" where
  "is_lit (TLit w) = True"
| "is_lit (TGroup n) = False"

fun only_empty :: "regex \<Rightarrow> bool" where
  "only_empty Eps = True"
| "only_empty (Seq a b) = (only_empty a \<and> only_empty b)"
| "only_empty (Group r) = only_empty r"
| "only_empty _ = False"

fun final_char :: "regex \<Rightarrow> char option" where
  "final_char (Atom (Chr c)) = Some c"
| "final_char (Seq a b) =
     (case final_char b of
        Some c \<Rightarrow> Some c
      | None \<Rightarrow> if only_empty b then final_char a else None)"
| "final_char (Group r) = final_char r"
| "final_char _ = None"

text \<open>
  The two shapes of rule in the table: one group around the whole pattern, put back in
  front of the inserted text; or two groups side by side, put back around it.
\<close>

fun shaped :: "regex \<Rightarrow> titem list \<Rightarrow> bool" where
  "shaped (Group a) (TGroup n # lits) =
     (n = 1 \<and> list_all is_lit lits
      \<and> (case final_char a of None \<Rightarrow> False | Some c \<Rightarrow> c \<noteq> CHR ''\<newline>'')
      \<and> (template_text lits = [] \<or> last (template_text lits) \<noteq> CHR ''\<newline>''))"
| "shaped (Seq (Group a) (Seq (Group b) Eps)) (TGroup n # rest) =
     (n = 1 \<and> rest \<noteq> [] \<and> last rest = TGroup 2 \<and> list_all is_lit (butlast rest)
      \<and> ngroups a = 0 \<and> ngroups b = 0 \<and> \<not> nullable b)"
| "shaped _ _ = False"

subsection \<open>Facts about line counts\<close>

lemma newlines_append [simp]: "newlines (a @ b) = newlines a + newlines b"
  by (simp add: newlines_def)

lemma newlines_Nil [simp]: "newlines [] = 0"
  by (simp add: newlines_def)

lemma same_end_refl [simp]: "same_end a a"
  by (simp add: same_end_def)

lemma same_end_append:
  "same_end a b \<Longrightarrow> same_end x y \<Longrightarrow> same_end (a @ x) (b @ y)"
  by (auto simp: same_end_def)

lemma line_count_newlines:
  "line_count s = newlines s + (if s = [] \<or> last s = CHR ''\<newline>'' then 0 else 1)"
proof -
  have "length (readlines s) = newlines s + (if s = [] \<or> last s = CHR ''\<newline>'' then 0 else 1)
        \<and> (readlines s = [] \<longleftrightarrow> s = [])"
  proof (induction s)
    case Nil
    then show ?case by simp
  next
    case (Cons c cs)
    then show ?case
      by (cases "readlines cs") (auto simp: newlines_def)
  qed
  then show ?thesis by (simp add: line_count_def)
qed

lemma line_count_same_end:
  "same_end a b \<Longrightarrow> line_count b + newlines a = line_count a + newlines b"
  by (auto simp: line_count_newlines same_end_def)

lemma only_empty_lang: "only_empty r \<Longrightarrow> m \<in> lang r \<Longrightarrow> m = []"
  by (induction r arbitrary: m) auto

lemma final_char_lang: "final_char r = Some c \<Longrightarrow> m \<in> lang r \<Longrightarrow> m \<noteq> [] \<and> last m = c"
proof (induction r arbitrary: m c)
  case (Atom x)
  then show ?case by (cases x) auto
next
  case (Seq r1 r2)
  from Seq.prems obtain u v where uv: "m = u @ v" "u \<in> lang r1" "v \<in> lang r2" by auto
  show ?case
  proof (cases "final_char r2")
    case None
    with Seq.prems have oe: "only_empty r2" and f1: "final_char r1 = Some c"
      by (auto split: if_splits)
    from only_empty_lang [OF oe uv(3)] have "v = []" .
    with Seq.IH(1) [OF f1 uv(2)] uv show ?thesis by simp
  next
    case (Some d)
    with Seq.prems have "d = c" by simp
    with Seq.IH(2) [OF Some uv(3)] uv show ?thesis by simp
  qed
qed auto

lemma expand_lits: "list_all is_lit lits \<Longrightarrow> expand lits caps = template_text lits"
proof (induction lits)
  case Nil
  then show ?case by simp
next
  case (Cons a lits)
  then show ?case by (cases a) auto
qed

lemma matches_no_groups:
  "ngroups r = 0 \<Longrightarrow> (s', c') \<in> set (matches r g s caps) \<Longrightarrow> c' = caps"
proof (induction r arbitrary: g s caps s' c')
  case (Seq r1 r2)
  from Seq.prems obtain s1 c1 where
    1: "(s1, c1) \<in> set (matches r1 g s caps)" and
    2: "(s', c') \<in> set (matches r2 (g + ngroups r1) s1 c1)"
    by (auto simp: matches.simps)
  from Seq.prems have "ngroups r1 = 0" "ngroups r2 = 0" by auto
  with Seq.IH(1) [OF _ 1] Seq.IH(2) [OF _ 2] show ?case by simp
qed (auto split: list.splits if_splits)


lemma match_at_SomeD:
  assumes "match_at r adv s = Some (s', caps)"
  shows "\<exists>c1. (s', c1) \<in> set (matches r 1 s []) \<and> caps = (0, take (length s - length s') s) # c1"
proof -
  from assms obtain c1 rest where
    f: "filter (\<lambda>(s', caps). \<not> (adv \<and> length s' = length s)) (matches r 1 s []) = (s', c1) # rest"
    and caps: "caps = (0, take (length s - length s') s) # c1"
    by (auto simp: match_at_def split: list.splits)
  have "(s', c1) \<in> set (filter (\<lambda>(s', caps). \<not> (adv \<and> length s' = length s)) (matches r 1 s []))"
    unfolding f by simp
  with caps show ?thesis by auto
qed

lemma search_match_at:
  "search r adv s = Some (pre, s', caps) \<Longrightarrow>
   \<exists>adv' s0. s = pre @ s0 \<and> match_at r adv' s0 = Some (s', caps)"
proof (induction r adv s arbitrary: pre s' caps rule: search.induct)
  case (1 r adv s)
  show ?case
  proof (cases "match_at r adv s")
    case (Some a)
    with "1.prems" have "pre = []" "a = (s', caps)"
      by (auto simp: search.simps [of r adv s])
    with Some show ?thesis by auto
  next
    case None
    with "1.prems" obtain c cs pre' where
      s: "s = c # cs" and pre: "pre = c # pre'" and rec: "search r False cs = Some (pre', s', caps)"
      by (auto simp: search.simps [of r adv s] split: list.splits option.splits)
    from "1.IH" [OF None s rec] s pre show ?thesis by auto
  qed
qed

lemma expand_append: "expand (t1 @ t2) caps = expand t1 caps @ expand t2 caps"
  by (induction t1 caps rule: expand.induct) simp_all

lemma template_text_append: "template_text (t1 @ t2) = template_text t1 @ template_text t2"
  by (induction t1 rule: template_text.induct) simp_all

lemma shaped_group:
  assumes m: "match_at (Group a) adv s = Some (s', caps)"
    and lits: "list_all is_lit lits"
    and fin: "final_char a = Some c" "c \<noteq> CHR ''\<newline>''"
    and w: "template_text lits = [] \<or> last (template_text lits) \<noteq> CHR ''\<newline>''"
  shows "newlines (expand (TGroup 1 # lits) caps)
           = newlines (take (length s - length s') s) + newlines (template_text (TGroup 1 # lits))
         \<and> same_end (take (length s - length s') s) (expand (TGroup 1 # lits) caps)"
proof -
  let ?m = "take (length s - length s') s"
  from match_at_SomeD [OF m] obtain c1 where
    c1: "(s', c1) \<in> set (matches (Group a) 1 s [])" "caps = (0, ?m) # c1" by blast
  from c1(1) obtain c2 where "c1 = (1, ?m) # c2"
    by (auto simp: matches.simps(6))
  with c1 have g1: "map_of caps 1 = Some ?m" by simp
  from matches_sound [OF c1(1)] obtain m' where m': "m' \<in> lang a" "s = m' @ s'" by auto
  then have "?m = m'" by simp
  with final_char_lang [OF fin(1) m'(1)] fin(2) have ne: "?m \<noteq> []" "last ?m \<noteq> CHR ''\<newline>''"
    by simp_all
  have e: "expand (TGroup 1 # lits) caps = ?m @ template_text lits"
    using g1 lits by (simp add: expand_lits)
  have "same_end ?m (?m @ template_text lits)"
    using ne w by (cases "template_text lits = []") (auto simp: same_end_def)
  with e show ?thesis by simp
qed

lemma shaped_pair:
  assumes m: "match_at (Seq (Group a) (Seq (Group b) Eps)) adv s = Some (s', caps)"
    and rest: "rest \<noteq> []" "last rest = TGroup 2" "list_all is_lit (butlast rest)"
    and ng: "ngroups a = 0" "ngroups b = 0" and nn: "\<not> nullable b"
  shows "newlines (expand (TGroup 1 # rest) caps)
           = newlines (take (length s - length s') s) + newlines (template_text (TGroup 1 # rest))
         \<and> same_end (take (length s - length s') s) (expand (TGroup 1 # rest) caps)"
proof -
  let ?m = "take (length s - length s') s"
  from match_at_SomeD [OF m] obtain c1 where
    c1: "(s', c1) \<in> set (matches (Seq (Group a) (Seq (Group b) Eps)) 1 s [])"
       "caps = (0, ?m) # c1" by blast
  from c1(1) ng obtain s1 ca where
    a: "(s1, ca) \<in> set (matches (Group a) (Suc 0) s [])" and
    b: "(s', c1) \<in> set (matches (Group b) (Suc (Suc 0)) s1 ca)"
    by (auto simp: matches.simps(3))
  from a obtain ca' where ca: "ca = (Suc 0, take (length s - length s1) s) # ca'"
    and a': "(s1, ca') \<in> set (matches a (Suc (Suc 0)) s [])"
    by (auto simp: matches.simps(6))
  from matches_no_groups [OF ng(1) a'] have ca': "ca' = []" .
  from b obtain cb' where cb: "c1 = (Suc (Suc 0), take (length s1 - length s') s1) # cb'"
    and b': "(s', cb') \<in> set (matches b (Suc (Suc (Suc 0))) s1 ca)"
    by (auto simp: matches.simps(6))
  from matches_no_groups [OF ng(2) b'] have cb': "cb' = ca" .
  from matches_sound [OF a'] obtain g1 where g1: "g1 \<in> lang a" "s = g1 @ s1" by auto
  from matches_sound [OF b'] obtain g2 where g2: "g2 \<in> lang b" "s1 = g2 @ s'" by auto
  from g2 nn have g2ne: "g2 \<noteq> []" by (auto simp: nullable_lang)
  from g1 g2 have m: "?m = g1 @ g2" by simp
  from g1 g2 c1 ca ca' cb cb' have caps: "map_of caps 1 = Some g1" "map_of caps 2 = Some g2"
    by (simp_all add: numeral_2_eq_2)
  from rest have r: "rest = butlast rest @ [TGroup 2]"
    by (metis append_butlast_last_id)
  have "expand rest caps = template_text (butlast rest) @ g2"
    by (subst r) (simp add: expand_append expand_lits rest caps)
  moreover have "template_text rest = template_text (butlast rest)"
    by (subst r) (simp add: template_text_append)
  ultimately have e: "expand (TGroup 1 # rest) caps = g1 @ template_text rest @ g2"
    using caps by simp
  have "same_end (g1 @ g2) (g1 @ template_text rest @ g2)"
    using g2ne by (simp add: same_end_def)
  with e m show ?thesis by simp
qed

lemma shaped_match:
  assumes "shaped p t" "match_at p adv s = Some (s', caps)"
  shows "newlines (expand t caps)
           = newlines (take (length s - length s') s) + newlines (template_text t)
         \<and> same_end (take (length s - length s') s) (expand t caps)"
  using assms
proof (induction p t rule: shaped.induct)
  case (1 a n lits)
  from "1.prems"(1) obtain c where
    "n = 1" "list_all is_lit lits" "final_char a = Some c" "c \<noteq> CHR ''\<newline>''"
    "template_text lits = [] \<or> last (template_text lits) \<noteq> CHR ''\<newline>''"
    by (auto split: option.splits)
  with shaped_group [OF "1.prems"(2)] show ?case by blast
next
  case (2 a b n rest)
  from "2.prems"(1) have
    "n = 1" "rest \<noteq> []" "last rest = TGroup 2" "list_all is_lit (butlast rest)"
    "ngroups a = 0" "ngroups b = 0" "\<not> nullable b"
    by auto
  with shaped_pair [OF "2.prems"(2)] show ?case by blast
qed simp_all

lemma shaped_subx:
  "shaped p t \<Longrightarrow>
   newlines (subx p t adv s)
     = newlines s + nmatches (segments p adv s) * newlines (template_text t)
   \<and> same_end s (subx p t adv s)"
proof (induction p adv s rule: segments.induct)
  case (1 r adv s)
  show ?case
  proof (cases "search r adv s")
    case None
    then show ?thesis by (simp add: segments_None subx_None)
  next
    case (Some x)
    obtain pre s' caps where x: "x = (pre, s', caps)" by (cases x)
    note found = Some [unfolded x]
    from search_match_at [OF found] obtain adv' s0 where
      s0: "s = pre @ s0" "match_at r adv' s0 = Some (s', caps)" by blast
    let ?m = "take (length s0 - length s') s0"
    from match_at_sound [OF s0(2)] have m: "s0 = ?m @ s'" by auto
    from shaped_match [OF "1.prems" s0(2)] have
      e: "newlines (expand t caps) = newlines ?m + newlines (template_text t)"
         "same_end ?m (expand t caps)" by simp_all
    let ?adv = "length pre + length s' = length s"
    from "1.IH" [OF Some x [symmetric] refl "1.prems"] have
      ih: "newlines (subx r t ?adv s')
             = newlines s' + nmatches (segments r ?adv s') * newlines (template_text t)"
          "same_end s' (subx r t ?adv s')" by simp_all
    have split: "newlines s = newlines pre + newlines ?m + newlines s'"
      by (subst s0(1), subst m) simp
    have "same_end (pre @ ?m @ s') (pre @ expand t caps @ subx r t ?adv s')"
      by (intro same_end_append same_end_refl e ih)
    then have "same_end s (pre @ expand t caps @ subx r t ?adv s')"
      using s0(1) m by simp
    then show ?thesis
      using e(1) ih(1) split
      by (simp add: subx_Some [OF found] segments_Some [OF found] algebra_simps)
  qed
qed

lemma same_end_trans: "same_end a b \<Longrightarrow> same_end b c \<Longrightarrow> same_end a c"
  by (auto simp: same_end_def)

lemma is_lit_valid: "list_all is_lit lits \<Longrightarrow> list_all (valid_item p) lits"
proof (induction lits)
  case Nil
  then show ?case by simp
next
  case (Cons a lits)
  then show ?case by (cases a) auto
qed

lemma shaped_valid: "shaped p t \<Longrightarrow> valid_template p t"
proof (induction p t rule: shaped.induct)
  case (1 a n lits)
  then show ?case by (simp add: valid_template_def is_lit_valid)
next
  case (2 a b n rest)
  then have r: "rest = butlast rest @ [TGroup 2]"
    by (metis append_butlast_last_id shaped.simps(2))
  from 2 have "list_all (valid_item (Seq (Group a) (Seq (Group b) Eps))) (butlast rest @ [TGroup 2])"
    by (simp add: is_lit_valid)
  with r 2 show ?case by (simp add: valid_template_def)
qed simp_all

lemma inserted_lines_Cons:
  "inserted_lines ((p, t) # rest) c
   = nmatches (segments p False c) * newlines (template_text t)
     + inserted_lines rest (subx p t False c)"
  by (simp add: inserted_lines_def)

lemma inserted_lines_Nil: "inserted_lines [] c = 0"
  by (simp add: inserted_lines_def)

lemma shaped_loop:
  "list_all (\<lambda>(p, t). shaped p t) rules \<Longrightarrow>
   \<exists>c'. sub_loop rules c = Inr c'
        \<and> newlines c' = newlines c + inserted_lines rules c \<and> same_end c c'"
proof (induction rules arbitrary: c)
  case Nil
  then show ?case by (simp add: inserted_lines_Nil)
next
  case (Cons rule rules)
  obtain p t where rule: "rule = (p, t)" by (cases rule)
  with Cons.prems have sh: "shaped p t" and rest: "list_all (\<lambda>(p, t). shaped p t) rules"
    by simp_all
  from shaped_valid [OF sh] have sub: "re_sub p t c = Inr (subx p t False c)"
    by (simp add: re_sub_def)
  from Cons.IH [OF rest, of "subx p t False c"] obtain c' where
    c': "sub_loop rules (subx p t False c) = Inr c'"
        "newlines c' = newlines (subx p t False c) + inserted_lines rules (subx p t False c)"
        "same_end (subx p t False c) c'" by blast
  from shaped_subx [OF sh, of False c] have
    one: "newlines (subx p t False c)
            = newlines c + nmatches (segments p False c) * newlines (template_text t)"
         "same_end c (subx p t False c)" by simp_all
  from c' one sub rule show ?case
    by (auto simp: inserted_lines_Cons intro: same_end_trans)
qed

lemma final_char_lit [simp]: "final_char (lit w) = (if w = [] then None else Some (last w))"
  by (induction w) (auto simp: lit.simps)

lemma only_empty_lit [simp]: "only_empty (lit w) = (w = [])"
  by (cases w) (simp_all add: lit.simps)

lemma replacements_shaped: "list_all (\<lambda>(p, t). shaped p t) replacements"
  by (simp add: replacements_def hud_rule_defs backslash_def)

lemma replacements_line_count:
  "\<exists>c'. sub_loop replacements c = Inr c'
        \<and> line_count c' = line_count c + inserted_lines replacements c"
proof -
  from shaped_loop [OF replacements_shaped, of c] obtain c' where
    c': "sub_loop replacements c = Inr c'"
        "newlines c' = newlines c + inserted_lines replacements c" "same_end c c'" by blast
  from line_count_same_end [OF c'(3)] c'(2)
  have "line_count c' = line_count c + inserted_lines replacements c" by simp
  with c'(1) show ?thesis by blast
qed

section \<open>Evaluating the rule table\<close>

text \<open>
  Equations for running the loop over the table on a concrete text with every rule kept
  folded until the search reaches a position at which its pattern can start.
\<close>

lemma sub_loop_Cons:
  "sub_loop (rule # rest) c
   = (case re_sub (fst rule) (snd rule) c of Inl e \<Rightarrow> Inl e | Inr c' \<Rightarrow> sub_loop rest c')"
  by (cases rule) simp

lemma match_counts_Cons:
  "match_counts (rule # rest) c
   = nmatches (segments (fst rule) False c)
     # match_counts rest (subx (fst rule) (snd rule) False c)"
  by (cases rule) simp

lemma rule_unfold:
  assumes "rule = (p, t)"
  shows "match_at (fst rule) = match_at p" "expand (snd rule) = expand t"
  using assms by simp_all

lemma hud_rule_starts:
  "can_start (fst headline_rule) x = (x = CHR ''.'')"
  "can_start (fst subheadline_rule) x = (x = CHR ''T'')"
  "can_start (fst retry_hint_rule) x = (x = CHR ''.'')"
  "can_start (fst audio_meter_rule) x = (x = CHR ''A'')"
  "can_start (fst elapsed_time_rule) x = (x = CHR ''T'')"
  "can_start (fst transcript_rule) x = (x = CHR ''.'')"
  "can_start (fst confidence_rule) x = (x = CHR ''C'')"
  "can_start (fst error_icon_rule) x = (x = CHR ''I'')"
  "can_start (fst success_icon_rule) x = (x = CHR ''I'')"
  "can_start (fst recording_icon_rule) x = (x = CHR ''C'')"
  by (simp_all add: hud_rule_defs)

lemma hud_rule_not_nullable:
  "nullable (fst headline_rule) = False"
  "nullable (fst subheadline_rule) = False"
  "nullable (fst retry_hint_rule) = False"
  "nullable (fst audio_meter_rule) = False"
  "nullable (fst elapsed_time_rule) = False"
  "nullable (fst transcript_rule) = False"
  "nullable (fst confidence_rule) = False"
  "nullable (fst error_icon_rule) = False"
  "nullable (fst success_icon_rule) = False"
  "nullable (fst recording_icon_rule) = False"
  by (simp_all add: hud_rule_defs)

lemma hud_rule_valid:
  "valid_template (fst headline_rule) (snd headline_rule)"
  "valid_template (fst subheadline_rule) (snd subheadline_rule)"
  "valid_template (fst retry_hint_rule) (snd retry_hint_rule)"
  "valid_template (fst audio_meter_rule) (snd audio_meter_rule)"
  "valid_template (fst elapsed_time_rule) (snd elapsed_time_rule)"
  "valid_template (fst transcript_rule) (snd transcript_rule)"
  "valid_template (fst confidence_rule) (snd confidence_rule)"
  "valid_template (fst error_icon_rule) (snd error_icon_rule)"
  "valid_template (fst success_icon_rule) (snd success_icon_rule)"
  "valid_template (fst recording_icon_rule) (snd recording_icon_rule)"
  by (simp_all add: hud_rule_defs valid_template_def)

lemmas hud_eval =
  replacements_def sub_loop_Cons match_counts_Cons re_sub_def backslash_def
  hud_rule_starts hud_rule_not_nullable hud_rule_valid
  rule_unfold [OF headline_rule_def]
  rule_unfold [OF subheadline_rule_def]
  rule_unfold [OF retry_hint_rule_def]
  rule_unfold [OF audio_meter_rule_def]
  rule_unfold [OF elapsed_time_rule_def]
  rule_unfold [OF transcript_rule_def]
  rule_unfold [OF confidence_rule_def]
  rule_unfold [OF error_icon_rule_def]
  rule_unfold [OF success_icon_rule_def]
  rule_unfold [OF recording_icon_rule_def]
  regex_eval

section \<open>Scenarios\<close>

text \<open>
  Two five-line stubs for the heads-up display view, one around the marker of the headline
  rule and one around the marker of the audio-level-meter rule, each with the text the
  rule table turns it into; a stub for the main view that is just the marker of the helper
  rule; and two file systems in which a later file of the run is missing.
\<close>

definition label_stub :: string where
  \<open>label_stub = concat
     [''struct HUD {\<newline>'',
      ''  Text(headline)\<newline>'',
      ''    .foregroundStyle(headlineColor)\<newline>'',
      ''  Spacer()\<newline>'',
      ''}\<newline>'']\<close>

definition label_patched :: string where
  \<open>label_patched = concat
     [''struct HUD {\<newline>'',
      ''  Text(headline)\<newline>'',
      ''    .foregroundStyle(headlineColor)\<newline>'',
      ''          .accessibilityLabel("Status: '' @ backslash @ ''(manager.snapshot.headline)")\<newline>'',
      ''  Spacer()\<newline>'',
      ''}\<newline>'']\<close>

definition meter_stub :: string where
  \<open>meter_stub = concat
     [''VStack {\<newline>'',
      ''  AudioLevelMeterView(level: manager.audioLevel, width: 100, height: 4)\<newline>'',
      ''    .padding(.top, 2)\<newline>'',
      ''  Spacer()\<newline>'',
      ''}\<newline>'']\<close>

definition meter_patched :: string where
  \<open>meter_patched = concat
     [''VStack {\<newline>'',
      ''  AudioLevelMeterView(level: manager.audioLevel, width: 100, height: 4)\<newline>'',
      ''    .padding(.top, 2)\<newline>'',
      ''          .accessibilityLabel("Audio level meter")\<newline>'',
      ''          .accessibilityValue("'' @ backslash @ ''(Int(manager.audioLevel * 100)) percent")\<newline>'',
      ''  Spacer()\<newline>'',
      ''}\<newline>'']\<close>

definition marker_stub :: string where
  \<open>marker_stub = ''}\<newline>// @Implement This is the main app container''\<close>

definition plain_file :: "string \<Rightarrow> disk_file" where
  "plain_file s = \<lparr>data = s, readable = True, writable = True\<rparr>"

definition hud_only :: filesystem where
  "hud_only = [hud_path \<mapsto> plain_file label_stub]"

definition hud_and_main :: filesystem where
  "hud_and_main = [hud_path \<mapsto> plain_file label_stub, main_path \<mapsto> plain_file marker_stub]"

definition two_files :: filesystem where
  "two_files = [''a.txt'' \<mapsto> plain_file ''ab\<newline>'', ''b.txt'' \<mapsto> plain_file ''zz'']"

definition one_file :: filesystem where
  "one_file = [''a.txt'' \<mapsto> plain_file ''ab\<newline>'']"

subsection \<open>The scenarios, run\<close>

lemma label_stub_run: "sub_loop replacements label_stub = Inr label_patched"
  by (simp add: label_stub_def label_patched_def hud_eval)

lemma label_stub_counts: "match_counts replacements label_stub = [1, 0, 0, 0, 0, 0, 0, 0, 0, 0]"
  by (simp add: label_stub_def hud_eval)

lemma meter_stub_run: "sub_loop replacements meter_stub = Inr meter_patched"
  by (simp add: meter_stub_def meter_patched_def hud_eval)

lemma meter_stub_counts: "match_counts replacements meter_stub = [0, 0, 0, 1, 0, 0, 0, 0, 0, 0]"
  by (simp add: meter_stub_def hud_eval)

lemma marker_stub_run: "sub_loop main_rules marker_stub = Inr helper"
  by (simp add: marker_stub_def main_rules_def main_rule_defs helper_def re_sub_def
      valid_template_def regex_eval)

lemma stub_line_counts:
  "line_count label_stub = 5" "line_count label_patched = 6"
  "line_count meter_stub = 5" "line_count meter_patched = 7"
  by (simp_all add: line_count_newlines newlines_def label_stub_def label_patched_def
      meter_stub_def meter_patched_def backslash_def)

lemma template_lines:
  "map (\<lambda>(p, t). newlines (template_text t)) replacements = [1, 1, 1, 2, 1, 1, 1, 1, 1, 1]"
  by (simp add: replacements_def hud_rule_defs newlines_def backslash_def)

section \<open>Properties of the positional rules\<close>




text \<open>
  Claim C5. An insert whose index is not below the current length of the sequence is
  skipped: the loop goes on with the sequence as it was. Inserting at index 50 into a
  sequence of ten lines returns the ten lines. In general the ins out of range of the
  file can be left out of the list without changing the result.
\<close>

theorem out_of_range_insert_skipped:
  "(int (length lines) \<le> line_no \<longrightarrow>
      insert_loop ((line_no, text) # rest) lines = insert_loop rest lines)
   \<and> (length lines = 10 \<longrightarrow> apply_inserts lines [(50, text)] = lines)
   \<and> apply_inserts lines ins
       = apply_inserts lines (filter (in_range (length lines)) ins)"
  using apply_inserts_in_range [of lines ins]
  by (simp add: apply_inserts_def sorted_reverse_def)

theorem out_of_range_insert_skipped_witness:
  "int (length [''a'', ''b'']) \<le> 2
   \<and> insert_loop [(2, ''x''), (0, ''y'')] [''a'', ''b''] = [''y'', ''a'', ''b'']
   \<and> length (replicate 10 ''l'') = 10
   \<and> apply_inserts (replicate 10 ''l'') [(50, ''x'')] = replicate 10 ''l''"
  using out_of_range_insert_skipped [of "[''a'', ''b'']" 2 "''x''" "[(0, ''y'')]"]
    out_of_range_insert_skipped [of "replicate 10 ''l''" 0 "''x''" "[]"]
  by (simp add: list_insert_def)


section \<open>Properties of the pattern rules\<close>

text \<open>
  Claim C2. The rule loop is the left fold of \<^verbatim>\<open>re.sub\<close> over the rule list,
  each rule working on the text the rules before it produced, and stopping at the first
  exception. A single \<^verbatim>\<open>re.sub\<close> with a well-formed template cuts the text
  into the stretches between matches and the matches (together they are the text, in
  order, so the matches do not overlap; each one is a word of the pattern) and replaces
  every match by the template with its group references resolved. For a pattern that
  does not match the empty text the result is the global replacement of the
  specification: every leftmost match in turn is replaced.
\<close>

theorem rule_loop_is_left_fold:
  "sub_loop rules content
     = foldl (\<lambda>acc (pattern, replacement).
                case acc of Inl e \<Rightarrow> Inl e | Inr c \<Rightarrow> re_sub pattern replacement c)
         (Inr content) rules
   \<and> (valid_template pattern replacement \<longrightarrow>
        re_sub pattern replacement content
          = Inr (concat (map (render replacement) (segments pattern False content)))
        \<and> concat (map source_text (segments pattern False content)) = content
        \<and> list_all (is_match_of pattern) (segments pattern False content))
   \<and> (valid_template pattern replacement \<and> \<not> nullable pattern \<longrightarrow>
        (\<exists>out. re_sub pattern replacement content = Inr out
               \<and> replaced_all pattern replacement content out))"
  by (simp add: sub_loop_foldl re_sub_def segments_render segments_source segments_matches
      subx_replaced_all)

theorem rule_loop_is_left_fold_witness:
  "valid_template (Group (lit ''ab'')) [TGroup 1, TLit ''-'']
   \<and> \<not> nullable (Group (lit ''ab''))
   \<and> re_sub (Group (lit ''ab'')) [TGroup 1, TLit ''-''] ''abcab'' = Inr ''ab-cab-''
   \<and> replaced_all (Group (lit ''ab'')) [TGroup 1, TLit ''-''] ''abcab'' ''ab-cab-''
   \<and> segments (Group (lit ''ab'')) False ''abcab''
       = [Gap [], Match ''ab'' [(0, ''ab''), (1, ''ab'')],
          Gap ''c'', Match ''ab'' [(0, ''ab''), (1, ''ab'')], Gap []]
   \<and> sub_loop [(lit ''a'', [TLit ''b'']), (lit ''bb'', [TLit ''c''])] ''ab'' = Inr ''c''"
proof -
  have v: "valid_template (Group (lit ''ab'')) [TGroup 1, TLit ''-'']"
    by (simp add: valid_template_def)
  have n: "\<not> nullable (Group (lit ''ab''))"
    by simp
  have r: "re_sub (Group (lit ''ab'')) [TGroup 1, TLit ''-''] ''abcab'' = Inr ''ab-cab-''"
    by (simp add: valid_template_def re_sub_def regex_eval)
  have s: "segments (Group (lit ''ab'')) False ''abcab''
      = [Gap [], Match ''ab'' [(0, ''ab''), (1, ''ab'')],
         Gap ''c'', Match ''ab'' [(0, ''ab''), (1, ''ab'')], Gap []]"
    by (simp add: regex_eval)
  have l: "sub_loop [(lit ''a'', [TLit ''b'']), (lit ''bb'', [TLit ''c''])] ''ab'' = Inr ''c''"
    by (simp add: valid_template_def re_sub_def regex_eval)
  from rule_loop_is_left_fold
    [of "[(lit ''a'', [TLit ''b'']), (lit ''bb'', [TLit ''c''])]" "''abcab''"
        "Group (lit ''ab'')" "[TGroup 1, TLit ''-'']"] v n r
  have "replaced_all (Group (lit ''ab'')) [TGroup 1, TLit ''-''] ''abcab'' ''ab-cab-''"
    by auto
  with v n r s l show ?thesis by simp
qed




text \<open>
  Claim C6. When the first pass over a text succeeds and no pattern of the list has a
  match in the patched text, the second pass returns the patched text: nothing is
  inserted twice.
\<close>

theorem second_pass_is_identity:
  "sub_loop rules content = Inr patched \<Longrightarrow>
   list_all (\<lambda>(pattern, replacement). \<not> occurs pattern patched) rules \<Longrightarrow>
   sub_loop rules patched = Inr patched"
proof -
  assume first: "sub_loop rules content = Inr patched"
    and gone: "list_all (\<lambda>(pattern, replacement). \<not> occurs pattern patched) rules"
  from first have "list_all (\<lambda>(p, t). valid_template p t) rules"
    by (rule sub_loop_valid)
  with gone have "list_all (\<lambda>(p, t). valid_template p t \<and> \<not> occurs p patched) rules"
    by (induction rules) auto
  then show ?thesis by (rule sub_loop_fixed)
qed

theorem second_pass_is_identity_witness:
  "sub_loop [(lit ''ab'', [TLit ''X''])] ''cab'' = Inr ''cX''
   \<and> list_all (\<lambda>(pattern, replacement). \<not> occurs pattern ''cX'') [(lit ''ab'', [TLit ''X''])]
   \<and> sub_loop [(lit ''ab'', [TLit ''X''])] ''cX'' = Inr ''cX''"
proof -
  have first: "sub_loop [(lit ''ab'', [TLit ''X''])] ''cab'' = Inr ''cX''"
    by (simp add: re_sub_def valid_template_def regex_eval)
  have "search (lit ''ab'') False ''cX'' = None"
    by (simp add: regex_eval)
  then have gone:
    "list_all (\<lambda>(pattern, replacement). \<not> occurs pattern ''cX'') [(lit ''ab'', [TLit ''X''])]"
    by (simp add: search_None_False)
  from first gone second_pass_is_identity [OF first gone] show ?thesis by simp
qed

section \<open>Properties of the run\<close>

text \<open>
  Claim C3, as the code has it. Run over any text, the rule table raises nothing, and the
  number of lines grows by exactly the number of lines inserted: for every rule, the
  newlines in its template once for every match the rule replaced. The templates hold one
  newline each, except the template of the audio-level-meter rule, which holds two (a
  label line and a value line). In the scenario of the five-line stub around the headline
  marker the label line follows the marker line at once, one rule matched, and the stub
  grows by one line.
\<close>

theorem line_count_grows_by_inserted_lines:
  "(\<exists>c'. sub_loop replacements c = Inr c'
         \<and> line_count c' = line_count c + inserted_lines replacements c)
   \<and> map (\<lambda>(p, t). newlines (template_text t)) replacements = [1, 1, 1, 2, 1, 1, 1, 1, 1, 1]
   \<and> sub_loop replacements label_stub = Inr label_patched
   \<and> rules_matched replacements label_stub = 1
   \<and> line_count label_patched = line_count label_stub + 1"
  by (simp add: replacements_line_count template_lines label_stub_run rules_matched_def
      label_stub_counts stub_line_counts)

theorem line_count_grows_by_inserted_lines_witness:
  "sub_loop replacements meter_stub = Inr meter_patched
   \<and> inserted_lines replacements meter_stub = 2
   \<and> line_count meter_patched = line_count meter_stub + 2"
proof -
  have i: "inserted_lines replacements meter_stub = 2"
    unfolding inserted_lines_def meter_stub_counts
    by (simp add: replacements_def hud_rule_defs newlines_def backslash_def)
  from line_count_grows_by_inserted_lines [of meter_stub] obtain c' where
    "sub_loop replacements meter_stub = Inr c'"
    "line_count c' = line_count meter_stub + inserted_lines replacements meter_stub" by blast
  with meter_stub_run i show ?thesis by simp
qed

text \<open>
  Claim C3 as the specification words it (the line count grows by the number of rules
  that matched) fails on the five-line stub around the audio-level-meter marker: one rule
  matches and the stub grows by two lines.
\<close>

theorem meter_rule_adds_two_lines_counterexample:
  "sub_loop replacements meter_stub = Inr meter_patched
   \<and> rules_matched replacements meter_stub = 1
   \<and> line_count meter_patched \<noteq> line_count meter_stub + rules_matched replacements meter_stub"
  by (simp add: meter_stub_run rules_matched_def meter_stub_counts stub_line_counts)

text \<open>
  Claim C7. When the read of a later file fails, the run ends there with that error; the
  files before it have been rewritten, each with the result of its own rules on its own
  old text, and nothing else in the file system has changed, so the failing file and the
  files after it are as they were. Stated for a failing read of the main view and for a
  failing read of the settings view.
\<close>

theorem read_failure_keeps_earlier_writes:
  "(apply_pattern_rules hud_path replacements fs = Inr fs1
      \<and> read_text fs main_path = Inl e \<longrightarrow>
      run fs = (fs1, [hud_message], Some e)
      \<and> (\<exists>f c'. fs hud_path = Some f \<and> sub_loop replacements (data f) = Inr c'
                 \<and> fs1 = fs(hud_path \<mapsto> f\<lparr>data := c'\<rparr>)))
   \<and> (apply_pattern_rules hud_path replacements fs = Inr fs1
      \<and> apply_pattern_rules main_path main_rules fs1 = Inr fs2
      \<and> read_text fs settings_path = Inl e \<longrightarrow>
      run fs = (fs2, [hud_message, main_message], Some e)
      \<and> (\<exists>f c' g d'. fs hud_path = Some f \<and> sub_loop replacements (data f) = Inr c'
                 \<and> fs main_path = Some g \<and> sub_loop main_rules (data g) = Inr d'
                 \<and> fs2 = fs(hud_path \<mapsto> f\<lparr>data := c'\<rparr>, main_path \<mapsto> g\<lparr>data := d'\<rparr>)))"
proof -
  have first: "run fs = (fs1, [hud_message], Some e)
      \<and> (\<exists>f c'. fs hud_path = Some f \<and> sub_loop replacements (data f) = Inr c'
                 \<and> fs1 = fs(hud_path \<mapsto> f\<lparr>data := c'\<rparr>))"
    if hud: "apply_pattern_rules hud_path replacements fs = Inr fs1"
      and rd: "read_text fs main_path = Inl e"
  proof -
    from apply_pattern_rules_Inr [OF hud] obtain f c' where
      f: "fs hud_path = Some f" "sub_loop replacements (data f) = Inr c'"
         "fs1 = fs(hud_path \<mapsto> f\<lparr>data := c'\<rparr>)" by blast
    from rd f(3) have "read_text fs1 main_path = Inl e"
      using paths_distinct by (simp add: read_text_other)
    then have "apply_pattern_rules main_path main_rules fs1 = Inl e"
      by (rule apply_pattern_rules_read_fails)
    with hud have "run fs = (fs1, [hud_message], Some e)"
      by (simp add: run_def)
    with f show ?thesis by blast
  qed
  have second: "run fs = (fs2, [hud_message, main_message], Some e)
      \<and> (\<exists>f c' g d'. fs hud_path = Some f \<and> sub_loop replacements (data f) = Inr c'
                 \<and> fs main_path = Some g \<and> sub_loop main_rules (data g) = Inr d'
                 \<and> fs2 = fs(hud_path \<mapsto> f\<lparr>data := c'\<rparr>, main_path \<mapsto> g\<lparr>data := d'\<rparr>))"
    if hud: "apply_pattern_rules hud_path replacements fs = Inr fs1"
      and main: "apply_pattern_rules main_path main_rules fs1 = Inr fs2"
      and rd: "read_text fs settings_path = Inl e"
  proof -
    from apply_pattern_rules_Inr [OF hud] obtain f c' where
      f: "fs hud_path = Some f" "sub_loop replacements (data f) = Inr c'"
         "fs1 = fs(hud_path \<mapsto> f\<lparr>data := c'\<rparr>)" by blast
    from apply_pattern_rules_Inr [OF main] obtain g d' where
      g: "fs1 main_path = Some g" "sub_loop main_rules (data g) = Inr d'"
         "fs2 = fs1(main_path \<mapsto> g\<lparr>data := d'\<rparr>)" by blast
    from g(1) f(3) have g': "fs main_path = Some g"
      using paths_distinct by (simp split: if_splits)
    from rd f(3) g(3) have "read_text fs2 settings_path = Inl e"
      using paths_distinct by (simp add: read_text_other)
    then have "apply_positional_rules settings_path inserts fs2 = Inl e"
      by (rule apply_positional_rules_read_fails)
    with hud main have "run fs = (fs2, [hud_message, main_message], Some e)"
      by (simp add: run_def)
    with f g g' show ?thesis by blast
  qed
  from first second show ?thesis by blast
qed

theorem read_failure_keeps_earlier_writes_witness:
  "apply_pattern_rules hud_path replacements hud_only
     = Inr (hud_only(hud_path \<mapsto> plain_file label_patched))
   \<and> read_text hud_only main_path = Inl (FileNotFoundError main_path)
   \<and> run hud_only
     = (hud_only(hud_path \<mapsto> plain_file label_patched), [hud_message],
        Some (FileNotFoundError main_path))
   \<and> apply_pattern_rules main_path main_rules
       (hud_and_main(hud_path \<mapsto> plain_file label_patched))
     = Inr (hud_and_main(hud_path \<mapsto> plain_file label_patched, main_path \<mapsto> plain_file helper))
   \<and> read_text hud_and_main settings_path = Inl (FileNotFoundError settings_path)
   \<and> run hud_and_main
     = (hud_and_main(hud_path \<mapsto> plain_file label_patched, main_path \<mapsto> plain_file helper),
        [hud_message, main_message], Some (FileNotFoundError settings_path))"
proof -
  have a1: "apply_pattern_rules hud_path replacements hud_only
      = Inr (hud_only(hud_path \<mapsto> plain_file label_patched))"
    by (simp add: apply_pattern_rules_def read_text_def write_text_def hud_only_def
        plain_file_def label_stub_run)
  have a2: "read_text hud_only main_path = Inl (FileNotFoundError main_path)"
    using paths_distinct by (simp add: read_text_def hud_only_def)
  have b1: "apply_pattern_rules hud_path replacements hud_and_main
      = Inr (hud_and_main(hud_path \<mapsto> plain_file label_patched))"
    using paths_distinct
    by (simp add: apply_pattern_rules_def read_text_def write_text_def hud_and_main_def
        plain_file_def label_stub_run)
  have b2: "apply_pattern_rules main_path main_rules
        (hud_and_main(hud_path \<mapsto> plain_file label_patched))
      = Inr (hud_and_main(hud_path \<mapsto> plain_file label_patched, main_path \<mapsto> plain_file helper))"
    using paths_distinct
    by (simp add: apply_pattern_rules_def read_text_def write_text_def hud_and_main_def
        plain_file_def marker_stub_run)
  have b3: "read_text hud_and_main settings_path = Inl (FileNotFoundError settings_path)"
    using paths_distinct by (simp add: read_text_def hud_and_main_def)
  from read_failure_keeps_earlier_writes
    [of hud_only "hud_only(hud_path \<mapsto> plain_file label_patched)"
        "FileNotFoundError main_path"] a1 a2
  have a: "run hud_only
      = (hud_only(hud_path \<mapsto> plain_file label_patched), [hud_message],
         Some (FileNotFoundError main_path))" by blast
  from read_failure_keeps_earlier_writes
    [of hud_and_main "hud_and_main(hud_path \<mapsto> plain_file label_patched)"
        "FileNotFoundError settings_path"
        "hud_and_main(hud_path \<mapsto> plain_file label_patched, main_path \<mapsto> plain_file helper)"]
    b1 b2 b3
  have b: "run hud_and_main
      = (hud_and_main(hud_path \<mapsto> plain_file label_patched, main_path \<mapsto> plain_file helper),
         [hud_message, main_message], Some (FileNotFoundError settings_path))" by blast
  from a1 a2 a b2 b3 b show ?thesis by blast
qed

text \<open>
  Claim C8. Both operations are functions of the file they work on: two runs of an
  operation on file systems that agree on that file end alike, with the same error or with
  the same new file, whatever else the file systems hold. The rules are applied in list
  order: the loop over a list is the loop over its front part followed by the loop over
  the rest.
\<close>

theorem operations_are_deterministic:
  "(fs1 path = fs2 path \<longrightarrow>
      map_sum id (\<lambda>fs. fs path) (apply_pattern_rules path rules fs1)
        = map_sum id (\<lambda>fs. fs path) (apply_pattern_rules path rules fs2)
      \<and> map_sum id (\<lambda>fs. fs path) (apply_positional_rules path ins fs1)
        = map_sum id (\<lambda>fs. fs path) (apply_positional_rules path ins fs2))
   \<and> sub_loop (rules1 @ rules2) content
       = (case sub_loop rules1 content of Inl e \<Rightarrow> Inl e | Inr c \<Rightarrow> sub_loop rules2 c)"
  by (auto simp: apply_pattern_rules_def apply_positional_rules_def read_text_def write_text_def
      sub_loop_append split: option.splits sum.splits)

theorem operations_are_deterministic_witness:
  "one_file ''a.txt'' = two_files ''a.txt''
   \<and> map_sum id (\<lambda>fs. fs ''a.txt'') (apply_pattern_rules ''a.txt'' [(lit ''a'', [TLit ''b''])] one_file)
       = Inr (Some (plain_file ''bb\<newline>''))
   \<and> map_sum id (\<lambda>fs. fs ''a.txt'') (apply_pattern_rules ''a.txt'' [(lit ''a'', [TLit ''b''])] two_files)
       = Inr (Some (plain_file ''bb\<newline>''))
   \<and> map_sum id (\<lambda>fs. fs ''a.txt'') (apply_positional_rules ''a.txt'' [(0, ''x\<newline>'')] one_file)
       = Inr (Some (plain_file ''x\<newline>ab\<newline>''))
   \<and> map_sum id (\<lambda>fs. fs ''a.txt'') (apply_positional_rules ''a.txt'' [(0, ''x\<newline>'')] two_files)
       = Inr (Some (plain_file ''x\<newline>ab\<newline>''))"
proof -
  have same: "one_file ''a.txt'' = two_files ''a.txt''"
    by (simp add: one_file_def two_files_def)
  have p: "map_sum id (\<lambda>fs. fs ''a.txt'')
        (apply_pattern_rules ''a.txt'' [(lit ''a'', [TLit ''b''])] one_file)
      = Inr (Some (plain_file ''bb\<newline>''))"
    by (simp add: apply_pattern_rules_def read_text_def write_text_def one_file_def plain_file_def
        re_sub_def valid_template_def regex_eval)
  have q: "map_sum id (\<lambda>fs. fs ''a.txt'')
        (apply_positional_rules ''a.txt'' [(0, ''x\<newline>'')] one_file)
      = Inr (Some (plain_file ''x\<newline>ab\<newline>''))"
    by (simp add: apply_positional_rules_def read_text_def write_text_def one_file_def
        plain_file_def apply_inserts_def sorted_reverse_def list_insert_def writelines_def)
  from operations_are_deterministic
    [of one_file "''a.txt''" two_files "[(lit ''a'', [TLit ''b''])]" "[(0, ''x\<newline>'')]"] same p q
  show ?thesis by simp
qed

end
